theory Spec2Isabelle
  imports Main "HOL-Library.Sublist" "HOL-Library.Signed_Division"
begin

section \<open>The slideshow client\<close>

text \<open>
  A shallow embedding of the photo-slideshow client: the authentication service
  (class GoogleAuthService, the web variant that persists the session in
  localStorage), the Drive listing service (class GoogleDriveService) and the
  aggregation and navigation handlers of the App component. The repository also
  holds an earlier variant of GoogleAuthService without the persisted session;
  its checkForOAuthCompletion is the same, and its processAuthCode assigns the
  access token at the same point. The mobile variant, which stubs the OAuth
  flow, is not modelled.

  Conventions. JavaScript strings are modelled as \<^typ>\<open>string\<close>, a list of
  code units below 256. A value of type \<open>string | null\<close> or \<open>string | undefined\<close>
  is a \<^typ>\<open>string option\<close>. Numbers that the program only uses as integers
  (list indices, millisecond timestamps) are \<^typ>\<open>int\<close>. Mutable state (the
  fields of the two service singletons, localStorage, the React state) is passed
  explicitly. An exception is a value of type \<open>exn\<close>; a function that can throw
  returns \<open>exn + 'a\<close>. Only \<open>console.error\<close> output is recorded, without the
  emoji prefix and the values appended to the message.
\<close>

subsection \<open>JavaScript primitives used by the program\<close>

text \<open>Truthiness of a string value: only the empty string is falsy.\<close>

definition truthy :: "string \<Rightarrow> bool" where
  "truthy s = (s \<noteq> [])"

text \<open>Truthiness of \<open>string | null\<close>: null (or undefined) is falsy as well.\<close>

definition truthy_opt :: "string option \<Rightarrow> bool" where
  "truthy_opt v = (case v of None \<Rightarrow> False | Some s \<Rightarrow> truthy s)"

text \<open>
  Conversion to a string, as done by a template literal and by
  \<open>localStorage.setItem\<close>; the absent value that occurs in the program is
  \<open>undefined\<close>.
\<close>

definition js_string :: "string option \<Rightarrow> string" where
  "js_string v = (case v of None \<Rightarrow> ''undefined'' | Some s \<Rightarrow> s)"

text \<open>
  The remainder operator \<open>%\<close> on integers: the result has the sign of the
  dividend (truncated division), which is \<open>smod\<close> on \<^typ>\<open>int\<close>.
\<close>

definition js_rem :: "int \<Rightarrow> int \<Rightarrow> int" where
  "js_rem a b = a smod b"

text \<open>\<open>s.includes(pat)\<close>: \<open>pat\<close> occurs in \<open>s\<close> as a contiguous substring.\<close>

fun includes_js :: "string \<Rightarrow> string \<Rightarrow> bool" where
  "includes_js [] pat = (pat = [])"
| "includes_js (c # cs) pat = (prefix pat (c # cs) \<or> includes_js cs pat)"

text \<open>
  \<open>s.split(sep)\<close> for a non-empty separator: the pieces between the occurrences
  of \<open>sep\<close>, found from the left without overlap. (The program only splits at
  the literals \<open>'folders/'\<close> and \<open>'?'\<close>.)
\<close>

function split_js :: "string \<Rightarrow> string \<Rightarrow> string list" where
  "split_js [] sep = [[]]"
| "split_js (c # cs) sep =
     (if sep \<noteq> [] \<and> prefix sep (c # cs) then [] # split_js (drop (length sep) (c # cs)) sep
      else (case split_js cs sep of p # ps \<Rightarrow> (c # p) # ps | [] \<Rightarrow> [[c]]))"
  by pat_completeness auto
termination
  by (relation "measure (\<lambda>(s, sep). length s)") (auto simp: neq_Nil_conv)

text \<open>
  \<open>savedUrl.match(/\/folders\/([^/?]+)/)\<close>, reduced to what the program reads
  from the result: the first capture group, or None when the match is null. The
  matcher tries the start positions from the left; at a position it needs the
  literal \<open>/folders/\<close> followed by at least one character other than \<open>/\<close> and
  \<open>?\<close>, and the group takes the longest run of such characters.
\<close>

definition seg_char :: "char \<Rightarrow> bool" where
  "seg_char c = (c \<noteq> CHR ''/'' \<and> c \<noteq> CHR ''?'')"

fun match_folders :: "string \<Rightarrow> string option" where
  "match_folders [] = None"
| "match_folders (c # cs) =
     (if prefix ''/folders/'' (c # cs) \<and> takeWhile seg_char (drop 9 (c # cs)) \<noteq> []
      then Some (takeWhile seg_char (drop 9 (c # cs)))
      else match_folders cs)"

text \<open>
  \<open>parseInt(str)\<close> without a radix: leading white space is skipped, then an
  optional sign, then an optional \<open>0x\<close> prefix that selects radix 16, then the
  longest run of digits of the radix. None stands for NaN (no digit). The value
  is exact here; the program applies \<open>parseInt\<close> to millisecond timestamps, far
  below \<open>2^53\<close>.
\<close>

definition hex_digit :: "char \<Rightarrow> nat option" where
  "hex_digit c =
    (let n = (of_char c :: nat) in
     if 48 \<le> n \<and> n \<le> 57 then Some (n - 48)
     else if 97 \<le> n \<and> n \<le> 102 then Some (n - 87)
     else if 65 \<le> n \<and> n \<le> 70 then Some (n - 55)
     else None)"

definition is_StrWhiteSpaceChar :: "char \<Rightarrow> bool" where
  "is_StrWhiteSpaceChar c =
    (c = CHR '' '' \<or> c = CHR 0x09 \<or> c = CHR 0x0A \<or> c = CHR 0x0B \<or> c = CHR 0x0C
     \<or> c = CHR 0x0D \<or> c = CHR 0xA0)"

fun radix_digits :: "nat \<Rightarrow> string \<Rightarrow> nat list" where
  "radix_digits R [] = []"
| "radix_digits R (c # cs) =
    (case hex_digit c of
       None \<Rightarrow> []
     | Some d \<Rightarrow> if d < R then d # radix_digits R cs else [])"

definition parseInt :: "string \<Rightarrow> int option" where
  "parseInt str =
    (let s = dropWhile is_StrWhiteSpaceChar str;
         sign = (case s of c # _ \<Rightarrow> if c = CHR ''-'' then - 1 else 1 | [] \<Rightarrow> (1 :: int));
         s1 = (case s of c # cs \<Rightarrow> if c = CHR ''-'' \<or> c = CHR ''+'' then cs else s | [] \<Rightarrow> s);
         hex = (case s1 of a # b # _ \<Rightarrow> a = CHR ''0'' \<and> (b = CHR ''x'' \<or> b = CHR ''X'') | _ \<Rightarrow> False);
         R = (if hex then 16 else 10 :: nat);
         s2 = (if hex then drop 2 s1 else s1);
         ds = radix_digits R s2
     in if ds = [] then None
        else Some (sign * foldl (\<lambda>a d. a * int R + int d) 0 ds))"

subsection \<open>JSON text of the two persisted values\<close>

text \<open>
  The program persists two JSON values: the user object
  (\<open>JSON.stringify(user)\<close>, key \<open>google_auth_user\<close>) and the list of selected
  folder ids (\<open>JSON.stringify\<close> of a string array, key \<open>selected_folders\<close>). JSON
  text is modelled for these two shapes: a string literal with its escapes,
  an array of strings and an object whose members are strings, with white space
  where JSON allows it. \<open>JSON.parse\<close> composed with the use of the result at its
  declared type (GoogleUser, array of folder ids) is a partial function; None
  covers both a SyntaxError and a JSON value of another shape, which this
  program never writes under these keys.
\<close>

definition dquote :: char where
  "dquote = CHR 0x22"

definition backslash :: char where
  "backslash = CHR 0x5C"

definition hexchar :: "nat \<Rightarrow> char" where
  "hexchar d = (if d < 10 then char_of (48 + d) else char_of (87 + d))"

text \<open>The code unit written as \<open>\uXXXX\<close>; code units from 256 on are outside the model.\<close>

definition hex4 :: "char \<Rightarrow> char \<Rightarrow> char \<Rightarrow> char \<Rightarrow> char option" where
  "hex4 h1 h2 h3 h4 =
    (case (hex_digit h1, hex_digit h2, hex_digit h3, hex_digit h4) of
       (Some a, Some b, Some c, Some d) \<Rightarrow>
         (let v = ((a * 16 + b) * 16 + c) * 16 + d
          in if v < 256 then Some (char_of v) else None)
     | _ \<Rightarrow> None)"

text \<open>The character after a backslash.\<close>

definition unescape :: "char \<Rightarrow> char option" where
  "unescape e =
    (if e = dquote then Some dquote
     else if e = backslash then Some backslash
     else if e = CHR ''/'' then Some CHR ''/''
     else if e = CHR ''b'' then Some (CHR 0x08)
     else if e = CHR ''f'' then Some (CHR 0x0C)
     else if e = CHR ''n'' then Some (CHR 0x0A)
     else if e = CHR ''r'' then Some (CHR 0x0D)
     else if e = CHR ''t'' then Some (CHR 0x09)
     else None)"

text \<open>
  The characters of a string literal after its opening quote, up to the closing
  quote, and the input that follows.
\<close>

fun parse_chars :: "string \<Rightarrow> (string \<times> string) option" where
  "parse_chars [] = None"
| "parse_chars (c # cs) =
    (if c = dquote then Some ([], cs)
     else if c = backslash then
       (case cs of
          [] \<Rightarrow> None
        | e # cs' \<Rightarrow>
            if e = CHR ''u'' then
              (case cs' of
                 h1 # h2 # h3 # h4 # cs'' \<Rightarrow>
                   (case hex4 h1 h2 h3 h4 of
                      None \<Rightarrow> None
                    | Some ch \<Rightarrow>
                        (case parse_chars cs'' of
                           None \<Rightarrow> None
                         | Some (s, r) \<Rightarrow> Some (ch # s, r)))
               | _ \<Rightarrow> None)
            else
              (case unescape e of
                 None \<Rightarrow> None
               | Some ch \<Rightarrow>
                   (case parse_chars cs' of
                      None \<Rightarrow> None
                    | Some (s, r) \<Rightarrow> Some (ch # s, r))))
     else if (of_char c :: nat) < 32 then None
     else (case parse_chars cs of None \<Rightarrow> None | Some (s, r) \<Rightarrow> Some (c # s, r)))"

text \<open>
  QuoteJSONString, as \<open>JSON.stringify\<close> applies it to a string: the quote, the
  backslash and the control characters are escaped, everything else is copied.
\<close>

definition escape_char :: "char \<Rightarrow> string" where
  "escape_char c =
    (if c = dquote then [backslash, dquote]
     else if c = backslash then [backslash, backslash]
     else if c = CHR 0x08 then [backslash, CHR ''b'']
     else if c = CHR 0x0C then [backslash, CHR ''f'']
     else if c = CHR 0x0A then [backslash, CHR ''n'']
     else if c = CHR 0x0D then [backslash, CHR ''r'']
     else if c = CHR 0x09 then [backslash, CHR ''t'']
     else if (of_char c :: nat) < 32 then
       [backslash, CHR ''u'', CHR ''0'', CHR ''0'',
        hexchar (of_char c div 16), hexchar (of_char c mod 16)]
     else [c])"

definition quote :: "string \<Rightarrow> string" where
  "quote s = dquote # concat (map escape_char s) @ [dquote]"

definition is_ws :: "char \<Rightarrow> bool" where
  "is_ws c = (c = CHR '' '' \<or> c = CHR 0x09 \<or> c = CHR 0x0A \<or> c = CHR 0x0D)"

fun skip_ws :: "string \<Rightarrow> string" where
  "skip_ws [] = []"
| "skip_ws (c # cs) = (if is_ws c then skip_ws cs else c # cs)"

text \<open>A string literal, after optional white space.\<close>

fun parse_string :: "string \<Rightarrow> (string \<times> string) option" where
  "parse_string [] = None"
| "parse_string (c # cs) =
    (if is_ws c then parse_string cs
     else if c = dquote then parse_chars cs
     else None)"

text \<open>Both parsers consume input, which the parsers of arrays and objects rely on.\<close>

lemma parse_chars_shorter: "parse_chars s = Some (x, r) \<Longrightarrow> length r < length s"
proof (induction s arbitrary: x r rule: parse_chars.induct)
  case 1
  then show ?case by simp
next
  case (2 c cs)
  show ?case
  proof (cases "c = dquote")
    case True
    with "2.prems" show ?thesis by simp
  next
    case nq: False
    show ?thesis
    proof (cases "c = backslash")
      case True
      show ?thesis
      proof (cases cs)
        case Nil
        with "2.prems" nq True show ?thesis by simp
      next
        case (Cons e cs')
        show ?thesis
        proof (cases "e = CHR ''u''")
          case u: True
          from "2.prems" nq True Cons u obtain h1 h2 h3 h4 cs'' ch s'
            where cs': "cs' = h1 # h2 # h3 # h4 # cs''"
              and h: "hex4 h1 h2 h3 h4 = Some ch"
              and p: "parse_chars cs'' = Some (s', r)"
            by (auto split: list.splits option.splits)
          from "2.IH"(1) [OF nq True Cons u cs' refl refl refl h p]
          have "length r < length cs''" .
          with Cons cs' show ?thesis by simp
        next
          case nu: False
          from "2.prems" nq True Cons nu obtain ch s'
            where h: "unescape e = Some ch" and p: "parse_chars cs' = Some (s', r)"
            by (auto split: option.splits)
          from "2.IH"(2) [OF nq True Cons nu h p]
          have "length r < length cs'" .
          with Cons show ?thesis by simp
        qed
      qed
    next
      case nb: False
      from "2.prems" nq nb obtain s' where c32: "\<not> (of_char c :: nat) < 32"
        and p: "parse_chars cs = Some (s', r)"
        by (auto split: if_splits option.splits)
      from "2.IH"(3) [OF nq nb c32 p] have "length r < length cs" .
      then show ?thesis by simp
    qed
  qed
qed

lemma parse_string_shorter: "parse_string s = Some (x, r) \<Longrightarrow> length r < length s"
proof (induction s)
  case Nil
  then show ?case by simp
next
  case (Cons c s)
  show ?case
  proof (cases "is_ws c")
    case True
    with Cons have "length r < length s" by simp
    then show ?thesis by simp
  next
    case False
    with Cons.prems have "parse_chars s = Some (x, r)" by (simp split: if_splits)
    then have "length r < length s" by (rule parse_chars_shorter)
    then show ?thesis by simp
  qed
qed

text \<open>
  After an element of an array: a comma and the next element, or the closing
  bracket.
\<close>

function parse_elements :: "string \<Rightarrow> (string list \<times> string) option" where
  "parse_elements [] = None"
| "parse_elements (c # cs) =
    (if is_ws c then parse_elements cs
     else if c = CHR '']'' then Some ([], cs)
     else if c = CHR '','' then
       (case parse_string cs of
          None \<Rightarrow> None
        | Some (x, r) \<Rightarrow>
            (case parse_elements r of
               None \<Rightarrow> None
             | Some (xs, r') \<Rightarrow> Some (x # xs, r')))
     else None)"
  by pat_completeness auto
termination
proof (relation "measure length")
  fix c cs x2 x r
  assume "parse_string cs = Some x2" "(x, r) = x2"
  then have "length r < length cs" by (auto dest: parse_string_shorter)
  then show "(r, c # cs) \<in> measure length" by simp
qed simp_all

text \<open>Only white space may follow the value.\<close>

definition end_of_text :: "'a \<Rightarrow> string \<Rightarrow> 'a option" where
  "end_of_text v r = (if skip_ws r = [] then Some v else None)"

text \<open>
  \<open>JSON.parse(selectedFolders)\<close>, used as the list of folder ids: a JSON array
  of strings.
\<close>

definition JSON_parse_ids :: "string \<Rightarrow> string list option" where
  "JSON_parse_ids s =
    (case skip_ws s of
       [] \<Rightarrow> None
     | c # cs \<Rightarrow>
         if c \<noteq> CHR ''['' then None
         else
           (case skip_ws cs of
              [] \<Rightarrow> None
            | d # ds \<Rightarrow>
                if d = CHR '']'' then end_of_text [] ds
                else
                  (case parse_string (d # ds) of
                     None \<Rightarrow> None
                   | Some (x, r) \<Rightarrow>
                       (case parse_elements r of
                          None \<Rightarrow> None
                        | Some (xs, r') \<Rightarrow> end_of_text (x # xs) r'))))"

text \<open>A member \<open>"key": "value"\<close> of an object.\<close>

definition parse_member :: "string \<Rightarrow> ((string \<times> string) \<times> string) option" where
  "parse_member s =
    (case parse_string s of
       None \<Rightarrow> None
     | Some (k, r) \<Rightarrow>
         (case skip_ws r of
            [] \<Rightarrow> None
          | c # cs \<Rightarrow>
              if c = CHR '':'' then
                (case parse_string cs of
                   None \<Rightarrow> None
                 | Some (v, r') \<Rightarrow> Some ((k, v), r'))
              else None))"

lemma skip_ws_length: "length (skip_ws s) \<le> length s"
  by (induction s) auto

lemma parse_member_shorter:
  assumes "parse_member s = Some (kv, r)"
  shows "length r < length s"
proof -
  from assms obtain k r1 c cs v where
    1: "parse_string s = Some (k, r1)" and 2: "skip_ws r1 = c # cs"
    and 3: "parse_string cs = Some (v, r)"
    by (auto simp: parse_member_def split: option.splits list.splits if_splits)
  have "length r < length cs" using 3 by (rule parse_string_shorter)
  moreover have "length (c # cs) \<le> length r1" using skip_ws_length [of r1] by (simp add: 2)
  moreover have "length r1 < length s" using 1 by (rule parse_string_shorter)
  ultimately show ?thesis by simp
qed

text \<open>After a member: a comma and the next member, or the closing brace.\<close>

function parse_members :: "string \<Rightarrow> ((string \<times> string) list \<times> string) option" where
  "parse_members [] = None"
| "parse_members (c # cs) =
    (if is_ws c then parse_members cs
     else if c = CHR ''}'' then Some ([], cs)
     else if c = CHR '','' then
       (case parse_member cs of
          None \<Rightarrow> None
        | Some (kv, r) \<Rightarrow>
            (case parse_members r of
               None \<Rightarrow> None
             | Some (kvs, r') \<Rightarrow> Some (kv # kvs, r')))
     else None)"
  by pat_completeness auto
termination
proof (relation "measure length")
  fix c cs x2 kv r
  assume "parse_member cs = Some x2" "(kv, r) = x2"
  then have "length r < length cs" by (auto dest: parse_member_shorter)
  then show "(r, c # cs) \<in> measure length" by simp
qed simp_all

definition JSON_parse_object :: "string \<Rightarrow> (string \<times> string) list option" where
  "JSON_parse_object s =
    (case skip_ws s of
       [] \<Rightarrow> None
     | c # cs \<Rightarrow>
         if c \<noteq> CHR ''{'' then None
         else
           (case skip_ws cs of
              [] \<Rightarrow> None
            | d # ds \<Rightarrow>
                if d = CHR ''}'' then end_of_text [] ds
                else
                  (case parse_member (d # ds) of
                     None \<Rightarrow> None
                   | Some (kv, r) \<Rightarrow>
                       (case parse_members r of
                          None \<Rightarrow> None
                        | Some (kvs, r') \<Rightarrow> end_of_text (kv # kvs) r'))))"

subsection \<open>Data\<close>

text \<open>
  interface GoogleUser and interface DrivePhoto. The field names are the
  source's behind a prefix, since both interfaces have an \<open>id\<close> and a \<open>name\<close>.
\<close>

record GoogleUser =
  user_id :: string
  user_email :: string
  user_name :: string
  user_photo :: "string option"

record DrivePhoto =
  photo_id :: string
  photo_name :: string
  photo_mimeType :: string
  photo_thumbnailLink :: "string option"
  photo_webContentLink :: "string option"
  photo_size :: string

text \<open>
  An entry of \<open>response.files\<close> of the listing endpoint, with the fields that
  listPhotosInFolder reads, and the body of the user-info endpoint.
\<close>

record DriveFile =
  file_id :: string
  file_name :: string
  file_mimeType :: string
  file_webContentLink :: "string option"
  file_size :: string

record UserInfo =
  info_id :: string
  info_email :: string
  info_name :: string
  info_picture :: "string option"

text \<open>
  \<open>JSON.stringify(user)\<close>: the members in the order of the object literal; a
  member whose value is undefined is left out.
\<close>

definition JSON_stringify_user :: "GoogleUser \<Rightarrow> string" where
  "JSON_stringify_user user =
    ''{'' @ quote ''id'' @ '':'' @ quote (user_id user)
    @ '','' @ quote ''email'' @ '':'' @ quote (user_email user)
    @ '','' @ quote ''name'' @ '':'' @ quote (user_name user)
    @ (case user_photo user of
         None \<Rightarrow> []
       | Some photo \<Rightarrow> '','' @ quote ''photo'' @ '':'' @ quote photo)
    @ ''}''"

text \<open>
  \<open>JSON.parse(storedUser)\<close> used as a GoogleUser; of a repeated key the last
  member counts.
\<close>

definition JSON_parse_user :: "string \<Rightarrow> GoogleUser option" where
  "JSON_parse_user s =
    (case JSON_parse_object s of
       None \<Rightarrow> None
     | Some kvs \<Rightarrow>
         (let field = map_of (rev kvs)
          in case (field ''id'', field ''email'', field ''name'') of
               (Some i, Some e, Some n) \<Rightarrow>
                 Some \<lparr>user_id = i, user_email = e, user_name = n, user_photo = field ''photo''\<rparr>
             | _ \<Rightarrow> None))"

text \<open>\<open>JSON.stringify\<close> of an array of strings, as the settings dialog stores the selection.\<close>

definition JSON_stringify_ids :: "string list \<Rightarrow> string" where
  "JSON_stringify_ids ids =
    ''['' @ (case ids of [] \<Rightarrow> [] | x # xs \<Rightarrow> quote x @ concat (map (\<lambda>y. '','' @ quote y) xs)) @ '']''"

subsection \<open>The environment: localStorage, the network, the console\<close>

text \<open>localStorage: string keys, string values; \<open>getItem\<close> of a missing key is null.\<close>

type_synonym storage = "string \<rightharpoonup> string"

definition getItem :: "string \<Rightarrow> storage \<Rightarrow> string option" where
  "getItem k st = st k"

definition setItem :: "string \<Rightarrow> string \<Rightarrow> storage \<Rightarrow> storage" where
  "setItem k v st = st(k \<mapsto> v)"

definition removeItem :: "string \<Rightarrow> storage \<Rightarrow> storage" where
  "removeItem k st = st(k := None)"

text \<open>
  What \<open>fetch\<close> and the reading of the body can give: the promise is rejected
  (no response), a response whose \<open>ok\<close> is false (status and body text), a
  response with \<open>ok\<close> whose body is not JSON of the expected shape (\<open>json()\<close> or
  the first field access throws), or the body.
\<close>

datatype 'a response = FetchRejected | NotOk nat string | OkMalformed | OkBody 'a

text \<open>
  The requests: the token exchange (client id, client secret, code), the
  user-info request (the text after \<open>Bearer\<close>), a Drive request (endpoint,
  query parameters, the text after \<open>Bearer\<close>).
\<close>

datatype request =
    TokenRequest string string string
  | UserInfoRequest string
  | DriveRequest string "(string \<times> string) list" string

text \<open>
  The servers, as functions from a request to its outcome. The body of the
  token endpoint is reduced to its \<open>access_token\<close> member, which may be missing.
\<close>

record network =
  token_endpoint :: "string \<Rightarrow> string \<Rightarrow> string \<Rightarrow> string option response"
  userinfo_endpoint :: "string \<Rightarrow> UserInfo response"
  drive_endpoint :: "string \<Rightarrow> (string \<times> string) list \<Rightarrow> string \<Rightarrow> DriveFile list response"

text \<open>\<open>process.env\<close>.\<close>

record env =
  REACT_APP_GOOGLE_CLIENT_ID :: "string option"
  REACT_APP_GOOGLE_CLIENT_SECRET :: "string option"

text \<open>
  The state outside React: localStorage, the fields \<open>currentUser\<close> and
  \<open>accessToken\<close> of the GoogleAuthService singleton, the field \<open>accessToken\<close> of
  the GoogleDriveService singleton, the requests sent so far and the messages
  given to \<open>console.error\<close>.
\<close>

record world =
  localStorage :: storage
  currentUser :: "GoogleUser option"
  accessToken :: "string option"
  drive_accessToken :: "string option"
  requests :: "request list"
  console_errors :: "string list"

definition console_error :: "string \<Rightarrow> world \<Rightarrow> world" where
  "console_error msg w = w\<lparr>console_errors := console_errors w @ [msg]\<rparr>"

text \<open>Sending a request is recorded; its outcome is read from the network.\<close>

definition fetch :: "request \<Rightarrow> world \<Rightarrow> world" where
  "fetch r w = w\<lparr>requests := requests w @ [r]\<rparr>"

text \<open>The exceptions that the modelled functions throw.\<close>

datatype exn = NoAccessToken | DriveApiError nat string | FetchFailed | BadBody | TypeError

subsection \<open>GoogleDriveService\<close>

definition setAccessToken :: "string option \<Rightarrow> world \<Rightarrow> world" where
  "setAccessToken token w = w\<lparr>drive_accessToken := token\<rparr>"

text \<open>
  makeDriveRequest: throws without a token (\<open>NoAccessToken\<close> is the Error
  \<open>No access token available\<close>), sends the request with the token as bearer, and
  throws on a response that is not ok (\<open>DriveApiError\<close> carries the status and
  the body of the Error message).
\<close>

definition makeDriveRequest ::
  "network \<Rightarrow> string \<Rightarrow> (string \<times> string) list \<Rightarrow> world \<Rightarrow> (exn + DriveFile list) \<times> world" where
  "makeDriveRequest net endpoint params w =
    (case drive_accessToken w of
       None \<Rightarrow> (Inl NoAccessToken, w)
     | Some tok \<Rightarrow>
         if \<not> truthy tok then (Inl NoAccessToken, w)
         else
           (let w' = fetch (DriveRequest endpoint params tok) w
            in case drive_endpoint net endpoint params tok of
                 FetchRejected \<Rightarrow> (Inl FetchFailed, w')
               | NotOk status errorText \<Rightarrow> (Inl (DriveApiError status errorText), w')
               | OkMalformed \<Rightarrow> (Inl BadBody, w')
               | OkBody files \<Rightarrow> (Inr files, w')))"

text \<open>
  The folder id that listPhotosInFolder puts into the query:
  \<open>folderId.includes('folders/') ? folderId.split('folders/')[1].split('?')[0] : folderId\<close>.
  An index outside the array gives undefined, on which \<open>split\<close> would throw a
  TypeError.
\<close>

definition actualFolderId :: "string \<Rightarrow> exn + string" where
  "actualFolderId folderId =
    (if includes_js folderId ''folders/'' then
       (case split_js folderId ''folders/'' of
          _ # x # _ \<Rightarrow> (case split_js x ''?'' of y # _ \<Rightarrow> Inr y | [] \<Rightarrow> Inl TypeError)
        | _ \<Rightarrow> Inl TypeError)
     else Inr folderId)"

definition listing_params :: "string \<Rightarrow> (string \<times> string) list" where
  "listing_params actual =
    [(''q'', [CHR 0x27] @ actual @ [CHR 0x27] @ '' in parents and trashed=false''),
     (''fields'', ''files(id,name,mimeType,thumbnailLink,webContentLink,size)''),
     (''pageSize'', ''100'')]"

definition is_image :: "DriveFile \<Rightarrow> bool" where
  "is_image file = prefix ''image/'' (file_mimeType file)"

definition thumbnail_url :: "string \<Rightarrow> string" where
  "thumbnail_url fid = ''https://drive.google.com/thumbnail?id='' @ fid @ ''&sz=w800''"

definition to_photo :: "string \<Rightarrow> DriveFile \<Rightarrow> DrivePhoto" where
  "to_photo tok file =
    \<lparr>photo_id = file_id file,
     photo_name = file_name file,
     photo_mimeType = file_mimeType file,
     photo_thumbnailLink = Some (thumbnail_url (file_id file)),
     photo_webContentLink =
       (case file_webContentLink file of
          None \<Rightarrow> None
        | Some link \<Rightarrow> if truthy link then Some (link @ ''&access_token='' @ tok) else None),
     photo_size = file_size file\<rparr>"

text \<open>
  listPhotosInFolder: the image entries of the listing, each with its derived
  links. Whatever is thrown inside is logged and thrown again.
\<close>

definition listPhotosInFolder ::
  "network \<Rightarrow> string \<Rightarrow> world \<Rightarrow> (exn + DrivePhoto list) \<times> world" where
  "listPhotosInFolder net folderId w =
    (case actualFolderId folderId of
       Inl e \<Rightarrow> (Inl e, console_error ''Error listing photos:'' w)
     | Inr actual \<Rightarrow>
         (case makeDriveRequest net ''files'' (listing_params actual) w of
            (Inl e, w') \<Rightarrow> (Inl e, console_error ''Error listing photos:'' w')
          | (Inr files, w') \<Rightarrow>
              (let imageFiles = filter is_image files;
                   photos = map (to_photo (case drive_accessToken w' of Some tok \<Rightarrow> tok | None \<Rightarrow> ''null''))
                                imageFiles
               in (Inr photos, w'))))"

subsection \<open>GoogleAuthService\<close>

definition getCurrentUser :: "world \<Rightarrow> GoogleUser option" where
  "getCurrentUser w = currentUser w"

definition isSignedIn :: "world \<Rightarrow> bool" where
  "isSignedIn w = (currentUser w \<noteq> None)"

definition getAccessToken :: "world \<Rightarrow> string option" where
  "getAccessToken w = accessToken w"

text \<open>
  setAuthenticatedUser(user, token). The parameter is declared a string;
  processAuthCode passes \<open>this.accessToken!\<close>, which is undefined when the token
  response has no \<open>access_token\<close>, so the model takes \<open>string | undefined\<close>.
\<close>

definition setAuthenticatedUser :: "GoogleUser \<Rightarrow> string option \<Rightarrow> world \<Rightarrow> world" where
  "setAuthenticatedUser user token w =
    (let w1 = w\<lparr>currentUser := Some user, accessToken := token\<rparr>;
         w2 = w1\<lparr>localStorage :=
                 setItem ''google_auth_user'' (JSON_stringify_user user) (localStorage w1)\<rparr>;
         w3 = w2\<lparr>localStorage :=
                 setItem ''google_auth_token'' (js_string token) (localStorage w2)\<rparr>
     in if truthy_opt (accessToken w3) then setAccessToken (accessToken w3) w3 else w3)"

definition clearStoredAuth :: "world \<Rightarrow> world" where
  "clearStoredAuth w =
    w\<lparr>localStorage :=
        removeItem ''google_auth_token'' (removeItem ''google_auth_user'' (localStorage w)),
      currentUser := None,
      accessToken := None\<rparr>"

text \<open>
  loadStoredAuth. The stored user is parsed for the log line whenever it is
  truthy, so text that does not parse takes the catch branch even without a
  stored token.
\<close>

definition loadStoredAuth :: "world \<Rightarrow> world" where
  "loadStoredAuth w =
    (let storedUser = getItem ''google_auth_user'' (localStorage w);
         storedToken = getItem ''google_auth_token'' (localStorage w)
     in case storedUser of
          None \<Rightarrow> w
        | Some u \<Rightarrow>
            if \<not> truthy u then w
            else
              (case JSON_parse_user u of
                 None \<Rightarrow> clearStoredAuth (console_error ''Error loading stored auth:'' w)
               | Some user \<Rightarrow>
                   if truthy_opt storedToken
                   then setAccessToken storedToken
                          (w\<lparr>currentUser := Some user, accessToken := storedToken\<rparr>)
                   else w))"

definition signOut :: "world \<Rightarrow> world" where
  "signOut w =
    (let w1 = clearStoredAuth w;
         w2 = w1\<lparr>localStorage := removeItem ''temp_auth_code'' (localStorage w1)\<rparr>
     in w2\<lparr>localStorage := removeItem ''oauth_completion_time'' (localStorage w2)\<rparr>)"

text \<open>
  processAuthCode is asynchronous and its caller does not await it. Its body
  runs up to the first \<open>await\<close> inside the call: the credentials are checked
  (their absence is thrown and caught at once) and the token request is sent.
  \<open>processAuthCode_begin\<close> is this part; it returns the credentials when the
  request was sent. \<open>processAuthCode_resume\<close> is the rest, from the token
  response on, run without another handler in between. Every path ends in the
  function's own catch or in a return, so nothing is thrown to the caller.
\<close>

definition processAuthCode_begin :: "env \<Rightarrow> string \<Rightarrow> world \<Rightarrow> world \<times> (string \<times> string) option" where
  "processAuthCode_begin e authCode w =
    (case (REACT_APP_GOOGLE_CLIENT_ID e, REACT_APP_GOOGLE_CLIENT_SECRET e) of
       (Some clientId, Some clientSecret) \<Rightarrow>
         if truthy clientId \<and> truthy clientSecret
         then (fetch (TokenRequest clientId clientSecret authCode) w, Some (clientId, clientSecret))
         else (console_error ''Error processing OAuth completion:'' w, None)
     | _ \<Rightarrow> (console_error ''Error processing OAuth completion:'' w, None))"

definition processAuthCode_resume ::
  "network \<Rightarrow> string \<Rightarrow> string \<Rightarrow> string \<Rightarrow> world \<Rightarrow> world" where
  "processAuthCode_resume net clientId clientSecret authCode w =
    (case token_endpoint net clientId clientSecret authCode of
       FetchRejected \<Rightarrow> console_error ''Error processing OAuth completion:'' w
     | NotOk status errorText \<Rightarrow> console_error ''Token exchange failed:'' w
     | OkMalformed \<Rightarrow> console_error ''Error processing OAuth completion:'' w
     | OkBody access_token \<Rightarrow>
         (let w1 = w\<lparr>accessToken := access_token\<rparr>;
              bearer = js_string (accessToken w1);
              w2 = fetch (UserInfoRequest bearer) w1
          in case userinfo_endpoint net bearer of
               FetchRejected \<Rightarrow> console_error ''Error processing OAuth completion:'' w2
             | NotOk status errorText \<Rightarrow> console_error ''Failed to get user info'' w2
             | OkMalformed \<Rightarrow> console_error ''Error processing OAuth completion:'' w2
             | OkBody userInfo \<Rightarrow>
                 (let realUser = \<lparr>user_id = info_id userInfo, user_email = info_email userInfo,
                                   user_name = info_name userInfo,
                                   user_photo = info_picture userInfo\<rparr>
                  in setAuthenticatedUser realUser (accessToken w2) w2)))"

definition processAuthCode :: "env \<Rightarrow> network \<Rightarrow> string \<Rightarrow> world \<Rightarrow> world" where
  "processAuthCode e net authCode w =
    (case processAuthCode_begin e authCode w of
       (w1, None) \<Rightarrow> w1
     | (w1, Some (clientId, clientSecret)) \<Rightarrow>
         processAuthCode_resume net clientId clientSecret authCode w1)"

text \<open>The two \<open>removeItem\<close> calls that end both branches of checkForOAuthCompletion.\<close>

definition remove_pending :: "world \<Rightarrow> world" where
  "remove_pending w =
    (let w1 = w\<lparr>localStorage := removeItem ''temp_auth_code'' (localStorage w)\<rparr>
     in w1\<lparr>localStorage := removeItem ''oauth_completion_time'' (localStorage w1)\<rparr>)"

text \<open>
  checkForOAuthCompletion at the time \<open>now\<close> (\<open>Date.now()\<close>): the synchronous
  effect, and the token exchange left pending, if any (credentials and code).
  A timestamp that parses to NaN makes the comparison false.
\<close>

definition checkForOAuthCompletion ::
  "env \<Rightarrow> int \<Rightarrow> world \<Rightarrow> world \<times> (string \<times> string \<times> string) option" where
  "checkForOAuthCompletion e now w =
    (let tempAuthCode = getItem ''temp_auth_code'' (localStorage w);
         completionTime = getItem ''oauth_completion_time'' (localStorage w)
     in case (tempAuthCode, completionTime) of
          (Some code, Some time) \<Rightarrow>
            if truthy code \<and> truthy time then
              (case parseInt time of
                 None \<Rightarrow> (remove_pending w, None)
               | Some t \<Rightarrow>
                   let timeDiff = now - t
                   in if timeDiff < 5 * 60 * 1000 then
                        (case processAuthCode_begin e code w of
                           (w1, None) \<Rightarrow> (remove_pending w1, None)
                         | (w1, Some (clientId, clientSecret)) \<Rightarrow>
                             (remove_pending w1, Some (clientId, clientSecret, code)))
                      else (remove_pending w, None))
            else (w, None)
        | _ \<Rightarrow> (w, None))"

text \<open>
  A fresh load of the page: the stored data is what remains, both singletons
  are new. The constructor runs checkForOAuthCompletion and loadStoredAuth; a
  pending token exchange resumes after the constructor has returned.
\<close>

definition fresh_world :: "storage \<Rightarrow> world" where
  "fresh_world st =
    \<lparr>localStorage = st, currentUser = None, accessToken = None, drive_accessToken = None,
     requests = [], console_errors = []\<rparr>"

definition new_GoogleAuthService :: "env \<Rightarrow> network \<Rightarrow> int \<Rightarrow> storage \<Rightarrow> world" where
  "new_GoogleAuthService e net now st =
    (case checkForOAuthCompletion e now (fresh_world st) of
       (w1, pending) \<Rightarrow>
         (let w2 = loadStoredAuth w1
          in case pending of
               None \<Rightarrow> w2
             | Some (clientId, clientSecret, code) \<Rightarrow>
                 processAuthCode_resume net clientId clientSecret code w2))"

subsection \<open>App: loading the photos of the selected folders\<close>

text \<open>The React state of \<open>App\<close> that the modelled handlers read or write.\<close>

record app =
  currentPhotoIndex :: int
  drivePhotos :: "DrivePhoto list"
  isLoadingPhotos :: bool
  photoError :: "string option"

text \<open>\<open>Array.prototype.findIndex\<close>: the first index whose element satisfies \<open>P\<close>, or -1.\<close>

fun findIndex :: "('a \<Rightarrow> bool) \<Rightarrow> 'a list \<Rightarrow> int" where
  "findIndex P [] = - 1"
| "findIndex P (x # xs) =
    (if P x then 0 else (let k = findIndex P xs in if k < 0 then - 1 else k + 1))"

text \<open>
  \<open>allPhotos.filter((photo, index, self) => index === self.findIndex(p => p.id === photo.id))\<close>
\<close>

definition uniquePhotos :: "DrivePhoto list \<Rightarrow> DrivePhoto list" where
  "uniquePhotos allPhotos =
    map snd
      (filter (\<lambda>(index, photo). int index = findIndex (\<lambda>p. photo_id p = photo_id photo) allPhotos)
         (enumerate 0 allPhotos))"

text \<open>
  The loop over the selected folders: the sentinel \<open>root\<close> stands for the root
  folder id, the photos of a folder are appended, a folder whose listing throws
  is logged and skipped.
\<close>

definition folder_error :: "string \<Rightarrow> string" where
  "folder_error folderId = ''Error loading photos from folder '' @ folderId @ '':''"

fun load_folders ::
  "network \<Rightarrow> string \<Rightarrow> string list \<Rightarrow> DrivePhoto list \<Rightarrow> world \<Rightarrow> DrivePhoto list \<times> world" where
  "load_folders net rootFolderId [] allPhotos w = (allPhotos, w)"
| "load_folders net rootFolderId (folderId # rest) allPhotos w =
    (let actualFolderId = (if folderId = ''root'' then rootFolderId else folderId)
     in case listPhotosInFolder net actualFolderId w of
          (Inr photos, w') \<Rightarrow> load_folders net rootFolderId rest (allPhotos @ photos) w'
        | (Inl error, w') \<Rightarrow>
            load_folders net rootFolderId rest allPhotos
              (console_error (folder_error folderId) w'))"

text \<open>The three messages of \<open>setPhotoError\<close>.\<close>

definition NoFolderUrl :: string where
  "NoFolderUrl = ''No shared folder URL configured. Please set it in Settings.''"

definition InvalidFolderUrl :: string where
  "InvalidFolderUrl = ''Invalid folder URL format.''"

definition LoadFailed :: string where
  "LoadFailed = ''Failed to load photos from Google Drive. Please check your folder permissions.''"

text \<open>
  \<open>selectedFolders ? JSON.parse(selectedFolders) : ['root']\<close>; None when
  \<open>JSON.parse\<close> throws.
\<close>

definition selected_folderIds :: "world \<Rightarrow> string list option" where
  "selected_folderIds w =
    (case getItem ''selected_folders'' (localStorage w) of
       None \<Rightarrow> Some [''root'']
     | Some selectedFolders \<Rightarrow>
         if truthy selectedFolders then JSON_parse_ids selectedFolders else Some [''root''])"

text \<open>
  loadPhotosFromDrive. The selection is parsed before the URL is matched; an
  exception of \<open>JSON.parse\<close> reaches the outer catch. The \<open>finally\<close> block clears
  the loading flag on every path.
\<close>

definition loadPhotosFromDrive :: "network \<Rightarrow> app \<times> world \<Rightarrow> app \<times> world" where
  "loadPhotosFromDrive net aw =
    (case aw of (a, w) \<Rightarrow>
      (let a1 = a\<lparr>isLoadingPhotos := True, photoError := None\<rparr>
       in case getItem ''shared_moments_folder_url'' (localStorage w) of
            None \<Rightarrow> (a1\<lparr>photoError := Some NoFolderUrl, isLoadingPhotos := False\<rparr>, w)
          | Some savedUrl \<Rightarrow>
              if \<not> truthy savedUrl
              then (a1\<lparr>photoError := Some NoFolderUrl, isLoadingPhotos := False\<rparr>, w)
              else
                (case selected_folderIds w of
                   None \<Rightarrow>
                     (a1\<lparr>photoError := Some LoadFailed, isLoadingPhotos := False\<rparr>,
                      console_error ''Error loading photos:'' w)
                 | Some folderIds \<Rightarrow>
                     (case match_folders savedUrl of
                        None \<Rightarrow>
                          (a1\<lparr>photoError := Some InvalidFolderUrl, isLoadingPhotos := False\<rparr>, w)
                      | Some rootFolderId \<Rightarrow>
                          (case load_folders net rootFolderId folderIds [] w of
                             (allPhotos, w') \<Rightarrow>
                               (a1\<lparr>drivePhotos := uniquePhotos allPhotos,
                                   isLoadingPhotos := False\<rparr>, w'))))))"

text \<open>
  The sample photos shown when no Drive photo is loaded: id, colour and caption
  (the icon of each entry is left out).
\<close>

definition samplePhotos :: "(nat \<times> string \<times> string) list" where
  "samplePhotos =
    [(1, ''#3B82F6'', ''Photo 1''), (2, ''#10B981'', ''Photo 2''),
     (3, ''#F59E0B'', ''Photo 3''), (4, ''#EF4444'', ''Photo 4''),
     (5, ''#8B5CF6'', ''Photo 5'')]"

text \<open>
  \<open>displayPhotos = drivePhotos.length > 0 ? drivePhotos : samplePhotos\<close>; the
  handlers below only use its length.
\<close>

definition displayPhotos_length :: "app \<Rightarrow> int" where
  "displayPhotos_length a =
    (if length (drivePhotos a) > 0 then int (length (drivePhotos a))
     else int (length samplePhotos))"

subsection \<open>Navigation: nextPhoto and prevPhoto\<close>

definition nextPhoto :: "app \<Rightarrow> app" where
  "nextPhoto a =
    (if displayPhotos_length a > 0 then
       (let prev = currentPhotoIndex a;
            newIndex = js_rem (prev + 1) (displayPhotos_length a)
        in a\<lparr>currentPhotoIndex :=
              (if newIndex \<ge> 0 \<and> newIndex < displayPhotos_length a then newIndex else 0)\<rparr>)
     else a)"

definition prevPhoto :: "app \<Rightarrow> app" where
  "prevPhoto a =
    (if displayPhotos_length a > 0 then
       (let prev = currentPhotoIndex a;
            newIndex = js_rem (prev - 1 + displayPhotos_length a) (displayPhotos_length a)
        in a\<lparr>currentPhotoIndex :=
              (if newIndex \<ge> 0 \<and> newIndex < displayPhotos_length a then newIndex else 0)\<rparr>)
     else a)"

subsection \<open>The properties are stated with these\<close>

text \<open>
  Keeping the first photo of each id, in the words of the specification: a
  photo is kept unless its id was seen before.
\<close>

fun keep_first :: "string list \<Rightarrow> DrivePhoto list \<Rightarrow> DrivePhoto list" where
  "keep_first seen [] = []"
| "keep_first seen (p # ps) =
    (if photo_id p \<in> set seen then keep_first seen ps
     else p # keep_first (seen @ [photo_id p]) ps)"

text \<open>The part of a string before its first question mark.\<close>

definition until_query :: "string \<Rightarrow> string" where
  "until_query s = takeWhile (\<lambda>c. c \<noteq> CHR ''?'') s"

text \<open>
  What the listing of one selected folder gives in the state \<open>w\<close>: the result
  of listPhotosInFolder for the id that the loop resolves, its photos (none
  when the listing throws), and whether it throws.
\<close>

definition folder_listing :: "network \<Rightarrow> world \<Rightarrow> string \<Rightarrow> string \<Rightarrow> exn + DrivePhoto list" where
  "folder_listing net w rootFolderId folderId =
    fst (listPhotosInFolder net (if folderId = ''root'' then rootFolderId else folderId) w)"

definition folder_photos :: "network \<Rightarrow> world \<Rightarrow> string \<Rightarrow> string \<Rightarrow> DrivePhoto list" where
  "folder_photos net w rootFolderId folderId =
    (case folder_listing net w rootFolderId folderId of Inr photos \<Rightarrow> photos | Inl _ \<Rightarrow> [])"

definition folder_fails :: "network \<Rightarrow> world \<Rightarrow> string \<Rightarrow> string \<Rightarrow> bool" where
  "folder_fails net w rootFolderId folderId =
    (case folder_listing net w rootFolderId folderId of Inr _ \<Rightarrow> False | Inl _ \<Rightarrow> True)"

subsection \<open>Example data\<close>

text \<open>
  A server that lists the photos A and B in the folder XYZ123 and the photos A
  and C in the folder sub1, for every token, and answers 404 for any other
  folder; a token endpoint that accepts the code \<open>good\<close> only; a user-info
  endpoint that refuses every token.
\<close>

definition ex_file :: "string \<Rightarrow> DriveFile" where
  "ex_file i =
    \<lparr>file_id = i, file_name = i @ ''.png'', file_mimeType = ''image/png'',
     file_webContentLink = None, file_size = ''1''\<rparr>"

definition ex_network :: network where
  "ex_network =
    \<lparr>token_endpoint = (\<lambda>clientId clientSecret code.
        if code = ''good'' then OkBody (Some ''new-token'') else NotOk 400 ''invalid_grant''),
     userinfo_endpoint = (\<lambda>bearer. NotOk 401 ''unauthorized''),
     drive_endpoint = (\<lambda>endpoint params bearer.
        if params = listing_params ''XYZ123'' then OkBody [ex_file ''A'', ex_file ''B'']
        else if params = listing_params ''sub1'' then OkBody [ex_file ''A'', ex_file ''C'']
        else NotOk 404 ''File not found'')\<rparr>"

definition ex_url :: string where
  "ex_url = ''https://drive.example.com/drive/folders/XYZ123?usp=sharing''"

definition ex_storage :: storage where
  "ex_storage =
    [''shared_moments_folder_url'' \<mapsto> ex_url,
     ''selected_folders'' \<mapsto> JSON_stringify_ids [''root'', ''sub1'', ''sub2'']]"

definition ex_world :: world where
  "ex_world = (fresh_world ex_storage)\<lparr>drive_accessToken := Some ''token''\<rparr>"

definition ex_app :: app where
  "ex_app = \<lparr>currentPhotoIndex = 0, drivePhotos = [], isLoadingPhotos = False, photoError = None\<rparr>"

definition world_with_url :: "string \<Rightarrow> world" where
  "world_with_url url =
    (fresh_world [''shared_moments_folder_url'' \<mapsto> url])\<lparr>drive_accessToken := Some ''token''\<rparr>"

text \<open>
  Configured credentials, a user, a store with a pending authorization attempt
  stamped 1000000 ms, a store with the same timestamp and an empty code, a
  signed-in state, and a state with a persisted session.
\<close>

definition ex_env :: env where
  "ex_env =
    \<lparr>REACT_APP_GOOGLE_CLIENT_ID = Some ''client-id'',
     REACT_APP_GOOGLE_CLIENT_SECRET = Some ''client-secret''\<rparr>"

definition ex_user :: GoogleUser where
  "ex_user =
    \<lparr>user_id = ''42'', user_email = ''ada@example.com'', user_name = ''Ada'',
     user_photo = None\<rparr>"

definition ex_pending :: storage where
  "ex_pending = [''temp_auth_code'' \<mapsto> ''good'', ''oauth_completion_time'' \<mapsto> ''1000000'']"

definition ex_empty_code :: storage where
  "ex_empty_code = [''temp_auth_code'' \<mapsto> [], ''oauth_completion_time'' \<mapsto> ''1000000'']"

definition ex_signed_in :: world where
  "ex_signed_in =
    (fresh_world Map.empty)\<lparr>currentUser := Some ex_user, accessToken := Some ''old-token'',
       drive_accessToken := Some ''old-token''\<rparr>"

definition ex_stored_session :: world where
  "ex_stored_session =
    setAuthenticatedUser ex_user (Some ''token'')
      (fresh_world [''temp_auth_code'' \<mapsto> ''good'', ''oauth_completion_time'' \<mapsto> ''1000000''])"

section \<open>Strings: substrings, splitting, the folder id\<close>

lemma split_js_not_Nil: "split_js s sep \<noteq> []"
  by (induction s sep rule: split_js.induct) (auto split: list.splits)

lemma includes_js_length: "includes_js s pat \<Longrightarrow> length pat \<le> length s"
  by (induction s) (auto dest: prefix_length_le)

lemma split_js_no_sep: "\<not> includes_js s sep \<Longrightarrow> split_js s sep = [s]"
  by (induction s sep rule: split_js.induct) (auto split: list.splits)

lemma prefix_append_short:
  assumes "prefix xs (ys @ zs)" "length xs \<le> length ys"
  shows "prefix xs ys"
  using assms by (auto simp: prefix_append dest: prefix_length_le)

lemma split_js_first:
  assumes "sep \<noteq> []" "\<not> includes_js (p @ butlast sep) sep"
  shows "split_js (p @ sep @ r) sep = p # split_js r sep"
  using assms(2)
proof (induction p)
  case Nil
  from assms(1) obtain c cs where sep: "sep = c # cs" by (cases sep) auto
  have "split_js ((c # cs) @ r) (c # cs) = [] # split_js (drop (length (c # cs)) ((c # cs) @ r)) (c # cs)"
    by (simp del: drop_append)
  then show ?case by (simp add: sep)
next
  case (Cons c p)
  have np: "\<not> prefix sep (c # p @ butlast sep)"
    and rest: "\<not> includes_js (p @ butlast sep) sep"
    using Cons.prems by auto
  have "\<not> prefix sep (c # p @ sep @ r)"
  proof
    assume "prefix sep (c # p @ sep @ r)"
    moreover have "sep @ r = butlast sep @ last sep # r"
      using assms(1) by simp
    ultimately have "prefix sep ((c # p @ butlast sep) @ (last sep # r))"
      by simp
    moreover have "length sep \<le> length (c # p @ butlast sep)" by simp
    ultimately have "prefix sep (c # p @ butlast sep)" by (rule prefix_append_short)
    with np show False ..
  qed
  moreover have "split_js (p @ sep @ r) sep = p # split_js r sep"
    using rest by (rule Cons.IH)
  ultimately show ?case by simp
qed

lemma includes_js_butlast:
  assumes "last sep \<notin> set (butlast sep)" "sep \<noteq> []" "\<not> includes_js p sep"
  shows "\<not> includes_js (p @ butlast sep) sep"
  using assms(3)
proof (induction p)
  case Nil
  show ?case
  proof
    assume "includes_js ([] @ butlast sep) sep"
    then have "includes_js (butlast sep) sep" by simp
    then have "length sep \<le> length (butlast sep)"
      by (rule includes_js_length)
    moreover have "length (butlast sep) < length sep"
      using assms(2) by (cases sep) simp_all
    ultimately show False by linarith
  qed
next
  case (Cons c p)
  have np: "\<not> prefix sep (c # p)" and rest: "\<not> includes_js p sep"
    using Cons.prems by auto
  have "\<not> prefix sep (c # p @ butlast sep)"
  proof
    assume "prefix sep (c # p @ butlast sep)"
    then have "prefix sep ((c # p) @ butlast sep)" by simp
    then have "prefix sep (c # p) \<or> (\<exists>us. sep = (c # p) @ us \<and> prefix us (butlast sep))"
      by (simp only: prefix_append)
    with np obtain us where us: "sep = (c # p) @ us" "prefix us (butlast sep)"
      by blast
    have "us \<noteq> []"
    proof
      assume "us = []"
      with us(1) have "prefix sep (c # p)" by simp
      with np show False ..
    qed
    with us(1) have "last sep = last us" by simp
    with \<open>us \<noteq> []\<close> have "last sep \<in> set us" by (metis last_in_set)
    with us(2) have "last sep \<in> set (butlast sep)" by (auto dest: set_mono_prefix)
    with assms(1) show False ..
  qed
  with Cons.IH [OF rest] show ?case by simp
qed

lemma split_js_folders_first:
  assumes "\<not> includes_js p ''folders/''"
  shows "split_js (p @ ''folders/'' @ r) ''folders/'' = p # split_js r ''folders/''"
proof -
  have "\<not> includes_js (p @ butlast ''folders/'') ''folders/''"
    using assms by (intro includes_js_butlast) simp_all
  then show ?thesis by (intro split_js_first) simp_all
qed

lemma split_js_query_head: "\<exists>ps. split_js s ''?'' = until_query s # ps"
  by (induction s) (auto simp: until_query_def split: list.splits)

lemma includes_js_append_folders: "includes_js (p @ ''folders/'' @ r) ''folders/''"
  by (induction p) (auto)

lemma split_js_id_query:
  assumes "\<not> includes_js i ''folders/''" "q = [] \<or> hd q = CHR ''?''"
  shows "\<exists>x ps. split_js (i @ q) ''folders/'' = (i @ x) # ps \<and> (x = [] \<or> hd x = CHR ''?'')"
proof (cases q)
  case Nil
  with assms(1) show ?thesis by (simp add: split_js_no_sep)
next
  case (Cons d q')
  with assms(2) have d: "d = CHR ''?''" by simp
  show ?thesis
    using assms(1)
  proof (induction i)
    case Nil
    obtain p ps where "split_js q' ''folders/'' = p # ps"
      using split_js_not_Nil [of q' "''folders/''"] by (cases "split_js q' ''folders/''") auto
    then show ?case by (simp add: Cons d)
  next
    case (Cons c i)
    have np: "\<not> prefix ''folders/'' (c # i)" and rest: "\<not> includes_js i ''folders/''"
      using Cons.prems by auto
    have "\<not> prefix ''folders/'' (c # i @ q)"
    proof
      assume "prefix ''folders/'' (c # i @ q)"
      then have "prefix ''folders/'' ((c # i) @ q)" by simp
      then have "prefix ''folders/'' (c # i)
          \<or> (\<exists>us. ''folders/'' = (c # i) @ us \<and> prefix us q)"
        by (simp only: prefix_append)
      with np obtain us where us: "''folders/'' = (c # i) @ us" "prefix us q"
        by blast
      have "us \<noteq> []"
      proof
        assume "us = []"
        with us(1) have "prefix ''folders/'' (c # i)" by simp
        with np show False ..
      qed
      with us(2) have "hd us = CHR ''?''"
        using \<open>q = d # q'\<close> d by (cases us) (auto simp: prefix_Cons)
      with \<open>us \<noteq> []\<close> have "CHR ''?'' \<in> set us" by (metis hd_in_set)
      then have "CHR ''?'' \<in> set ((c # i) @ us)" by simp
      then have "CHR ''?'' \<in> set ''folders/''" by (simp only: us(1) [symmetric])
      then show False by simp
    qed
    moreover obtain x ps where "split_js (i @ q) ''folders/'' = (i @ x) # ps"
      "x = [] \<or> hd x = CHR ''?''"
      using Cons.IH [OF rest] by blast
    ultimately show ?case by simp
  qed
qed

lemma until_query_append:
  assumes "CHR ''?'' \<notin> set i" "x = [] \<or> hd x = CHR ''?''"
  shows "until_query (i @ x) = i"
proof -
  have "takeWhile (\<lambda>c. c \<noteq> CHR ''?'') x = []"
    using assms(2) by (cases x) auto
  moreover have "\<forall>c \<in> set i. c \<noteq> CHR ''?''"
    using assms(1) by auto
  ultimately show ?thesis
    by (simp add: until_query_def takeWhile_append2)
qed

lemma actualFolderId_bare: "\<not> includes_js s ''folders/'' \<Longrightarrow> actualFolderId s = Inr s"
  by (simp add: actualFolderId_def)

lemma actualFolderId_split:
  assumes "\<not> includes_js p ''folders/''" "split_js r ''folders/'' = m # ps"
  shows "actualFolderId (p @ ''folders/'' @ r) = Inr (until_query m)"
proof -
  have "split_js (p @ ''folders/'' @ r) ''folders/'' = p # m # ps"
    using split_js_folders_first [OF assms(1), of r] assms(2) by simp
  moreover obtain qs where "split_js m ''?'' = until_query m # qs"
    using split_js_query_head by blast
  ultimately show ?thesis
    using includes_js_append_folders [of p r] by (simp add: actualFolderId_def)
qed

lemma actualFolderId_once:
  assumes "\<not> includes_js p ''folders/''" "\<not> includes_js m ''folders/''"
  shows "actualFolderId (p @ ''folders/'' @ m) = Inr (until_query m)"
  using assms by (intro actualFolderId_split [where ps = "[]"]) (simp_all add: split_js_no_sep)

lemma actualFolderId_twice:
  assumes "\<not> includes_js p ''folders/''" "\<not> includes_js m ''folders/''"
  shows "actualFolderId (p @ ''folders/'' @ m @ ''folders/'' @ r) = Inr (until_query m)"
proof -
  have "split_js (m @ ''folders/'' @ r) ''folders/'' = m # split_js r ''folders/''"
    using assms(2) by (rule split_js_folders_first)
  with assms(1) show ?thesis by (rule actualFolderId_split)
qed

lemma actualFolderId_share_url:
  assumes "\<not> includes_js p ''folders/''" "\<not> includes_js i ''folders/''"
    "CHR ''?'' \<notin> set i" "q = [] \<or> hd q = CHR ''?''"
  shows "actualFolderId (p @ ''folders/'' @ i @ q) = Inr i"
proof -
  obtain x ps where x: "split_js (i @ q) ''folders/'' = (i @ x) # ps" "x = [] \<or> hd x = CHR ''?''"
    using split_js_id_query [OF assms(2) assms(4)] by blast
  have "actualFolderId (p @ ''folders/'' @ i @ q) = Inr (until_query (i @ x))"
    using assms(1) x(1) by (rule actualFolderId_split)
  then show ?thesis
    using assms(3) x(2) by (simp add: until_query_append)
qed

lemma split_js_includes:
  "sep \<noteq> [] \<Longrightarrow> includes_js s sep \<Longrightarrow> \<exists>a b bs. split_js s sep = a # b # bs"
proof (induction s sep rule: split_js.induct)
  case (1 sep)
  then show ?case by simp
next
  case (2 c cs sep)
  show ?case
  proof (cases "prefix sep (c # cs)")
    case True
    obtain b bs where "split_js (drop (length sep) (c # cs)) sep = b # bs"
      using split_js_not_Nil [of "drop (length sep) (c # cs)" sep]
      by (cases "split_js (drop (length sep) (c # cs)) sep") auto
    with True "2.prems"(1) show ?thesis by simp
  next
    case False
    with "2.prems" have "includes_js cs sep" by simp
    with "2.IH"(2) "2.prems"(1) False obtain a b bs where "split_js cs sep = a # b # bs"
      by blast
    with False show ?thesis by simp
  qed
qed

lemma actualFolderId_total: "\<exists>y. actualFolderId s = Inr y"
proof (cases "includes_js s ''folders/''")
  case False
  then show ?thesis by (simp add: actualFolderId_def)
next
  case True
  then obtain a b bs where "split_js s ''folders/'' = a # b # bs"
    using split_js_includes [of "''folders/''" s] by auto
  moreover obtain qs where "split_js b ''?'' = until_query b # qs"
    using split_js_query_head by blast
  ultimately show ?thesis
    using True by (simp add: actualFolderId_def)
qed

lemma match_folders_none: "\<not> includes_js url ''/folders/'' \<Longrightarrow> match_folders url = None"
  by (induction url) auto

section \<open>JSON text: what is written is read back\<close>

lemma hex_digit_hexchar: "d < 16 \<Longrightarrow> hex_digit (hexchar d) = Some d"
  by (simp add: hex_digit_def hexchar_def of_char_of Let_def)

lemma hex_digit_zero: "hex_digit CHR ''0'' = Some 0"
  by (simp add: hex_digit_def)

lemma hex4_control:
  assumes "(of_char c :: nat) < 32"
  shows "hex4 CHR ''0'' CHR ''0'' (hexchar (of_char c div 16)) (hexchar (of_char c mod 16)) = Some c"
proof -
  let ?n = "of_char c :: nat"
  have "hex_digit (hexchar (?n div 16)) = Some (?n div 16)"
    using assms by (intro hex_digit_hexchar) simp
  moreover have "hex_digit (hexchar (?n mod 16)) = Some (?n mod 16)"
    by (intro hex_digit_hexchar) simp
  moreover have "?n < 256" using assms by simp
  ultimately show ?thesis
    by (simp add: hex4_def hex_digit_zero)
qed

lemma backslash_not_dquote: "backslash \<noteq> dquote"
  by (simp add: backslash_def dquote_def)

lemma parse_chars_short_escape:
  assumes "e \<noteq> CHR ''u''" "unescape e = Some c"
  shows "parse_chars ([backslash, e] @ t)
   = (case parse_chars t of None \<Rightarrow> None | Some (s, r) \<Rightarrow> Some (c # s, r))"
  using assms by (simp add: backslash_not_dquote)

lemma parse_chars_escape_char:
  "parse_chars (escape_char c @ t)
   = (case parse_chars t of None \<Rightarrow> None | Some (s, r) \<Rightarrow> Some (c # s, r))"
proof -
  consider (dq) "c = dquote" | (bs) "c = backslash" | (b) "c = CHR 0x08" | (f) "c = CHR 0x0C"
    | (n) "c = CHR 0x0A" | (r) "c = CHR 0x0D" | (t) "c = CHR 0x09"
    | (other) "c \<noteq> dquote" "c \<noteq> backslash" "c \<noteq> CHR 0x08" "c \<noteq> CHR 0x0C"
        "c \<noteq> CHR 0x0A" "c \<noteq> CHR 0x0D" "c \<noteq> CHR 0x09"
    by blast
  then show ?thesis
  proof cases
    case dq
    have esc: "escape_char c = [backslash, dquote]"
      by (simp add: escape_char_def dq)
    have "dquote \<noteq> CHR ''u''" "unescape dquote = Some c"
      by (simp_all add: dq unescape_def dquote_def)
    then show ?thesis
      unfolding esc by (rule parse_chars_short_escape)
  next
    case bs
    have esc: "escape_char c = [backslash, backslash]"
      by (simp add: escape_char_def bs backslash_not_dquote)
    have "backslash \<noteq> CHR ''u''" "unescape backslash = Some c"
      by (simp_all add: bs unescape_def backslash_def dquote_def)
    then show ?thesis
      unfolding esc by (rule parse_chars_short_escape)
  next
    case b
    have esc: "escape_char c = [backslash, CHR ''b'']"
      by (simp add: escape_char_def b dquote_def backslash_def)
    have "CHR ''b'' \<noteq> CHR ''u''" "unescape CHR ''b'' = Some c"
      by (simp_all add: b unescape_def backslash_def dquote_def)
    then show ?thesis
      unfolding esc by (rule parse_chars_short_escape)
  next
    case f
    have esc: "escape_char c = [backslash, CHR ''f'']"
      by (simp add: escape_char_def f dquote_def backslash_def)
    have "CHR ''f'' \<noteq> CHR ''u''" "unescape CHR ''f'' = Some c"
      by (simp_all add: f unescape_def backslash_def dquote_def)
    then show ?thesis
      unfolding esc by (rule parse_chars_short_escape)
  next
    case n
    have esc: "escape_char c = [backslash, CHR ''n'']"
      by (simp add: escape_char_def n dquote_def backslash_def)
    have "CHR ''n'' \<noteq> CHR ''u''" "unescape CHR ''n'' = Some c"
      by (simp_all add: n unescape_def backslash_def dquote_def)
    then show ?thesis
      unfolding esc by (rule parse_chars_short_escape)
  next
    case r
    have esc: "escape_char c = [backslash, CHR ''r'']"
      by (simp add: escape_char_def r dquote_def backslash_def)
    have "CHR ''r'' \<noteq> CHR ''u''" "unescape CHR ''r'' = Some c"
      by (simp_all add: r unescape_def backslash_def dquote_def)
    then show ?thesis
      unfolding esc by (rule parse_chars_short_escape)
  next
    case t
    have esc: "escape_char c = [backslash, CHR ''t'']"
      by (simp add: escape_char_def t dquote_def backslash_def)
    have "CHR ''t'' \<noteq> CHR ''u''" "unescape CHR ''t'' = Some c"
      by (simp_all add: t unescape_def backslash_def dquote_def)
    then show ?thesis
      unfolding esc by (rule parse_chars_short_escape)
  next
    case other
    show ?thesis
    proof (cases "(of_char c :: nat) < 32")
      case True
      have "escape_char c = [backslash, CHR ''u'', CHR ''0'', CHR ''0'',
          hexchar (of_char c div 16), hexchar (of_char c mod 16)]"
        using other True by (simp add: escape_char_def)
      then show ?thesis
        using hex4_control [OF True] by (simp add: backslash_not_dquote)
    next
      case False
      have "escape_char c = [c]"
        using other False by (simp add: escape_char_def)
      then show ?thesis
        using other False by simp
    qed
  qed
qed

lemma parse_chars_escaped:
  "parse_chars (concat (map escape_char s) @ dquote # rest) = Some (s, rest)"
  by (induction s) (simp_all add: parse_chars_escape_char)

lemma quote_Cons: "quote s @ r = dquote # concat (map escape_char s) @ dquote # r"
  by (simp add: quote_def)

lemma not_ws_dquote: "\<not> is_ws dquote"
  by (simp add: is_ws_def dquote_def)

lemma parse_string_quote: "parse_string (quote s @ r) = Some (s, r)"
  by (simp add: quote_Cons not_ws_dquote parse_chars_escaped)

lemma parse_member_quote:
  "parse_member (quote k @ CHR '':'' # quote v @ r) = Some ((k, v), r)"
  by (simp add: parse_member_def parse_string_quote is_ws_def)

lemma parse_elements_quoted:
  "parse_elements (concat (map (\<lambda>y. '','' @ quote y) xs) @ CHR '']'' # r) = Some (xs, r)"
  by (induction xs) (simp_all add: is_ws_def parse_string_quote)

lemma end_of_text_Nil: "end_of_text v [] = Some v"
  by (simp add: end_of_text_def)

lemma JSON_parse_stringify_ids: "JSON_parse_ids (JSON_stringify_ids ids) = Some ids"
proof (cases ids)
  case Nil
  then show ?thesis
    by (simp add: JSON_parse_ids_def JSON_stringify_ids_def is_ws_def end_of_text_Nil)
next
  case (Cons x xs)
  let ?rest = "concat (map (\<lambda>y. '','' @ quote y) xs) @ '']''"
  obtain ds where ds: "quote x @ ?rest = dquote # ds"
    by (simp add: quote_Cons)
  have 1: "parse_string (dquote # ds) = Some (x, ?rest)"
    unfolding ds [symmetric] by (rule parse_string_quote)
  have 2: "parse_elements ?rest = Some (xs, [])"
    using parse_elements_quoted [of xs "[]"] by simp
  have "JSON_stringify_ids ids = CHR ''['' # dquote # ds"
    using ds by (simp add: JSON_stringify_ids_def Cons)
  moreover have "dquote \<noteq> CHR '']''" by (simp add: dquote_def)
  ultimately show ?thesis
    using 1 2 not_ws_dquote
    by (simp add: JSON_parse_ids_def is_ws_def end_of_text_Nil Cons del: parse_string.simps)
qed

lemma parse_members_member:
  "parse_members (CHR '','' # quote k @ CHR '':'' # quote v @ r)
   = (case parse_members r of None \<Rightarrow> None | Some (kvs, r') \<Rightarrow> Some ((k, v) # kvs, r'))"
  by (simp add: is_ws_def parse_member_quote)

lemma parse_members_close: "parse_members (CHR ''}'' # r) = Some ([], r)"
  by (simp add: is_ws_def)

lemma JSON_parse_object_member:
  "JSON_parse_object (CHR ''{'' # quote k @ CHR '':'' # quote v @ r)
   = (case parse_members r of None \<Rightarrow> None | Some (kvs, r') \<Rightarrow> end_of_text ((k, v) # kvs) r')"
proof -
  obtain ds where ds: "quote k @ CHR '':'' # quote v @ r = dquote # ds"
    by (simp add: quote_Cons)
  have 1: "parse_member (dquote # ds) = Some ((k, v), r)"
    unfolding ds [symmetric] by (rule parse_member_quote)
  have "dquote \<noteq> CHR ''}''" by (simp add: dquote_def)
  then show ?thesis
    using 1 not_ws_dquote
    by (simp add: JSON_parse_object_def ds is_ws_def)
qed

lemma JSON_parse_object_stringify_user:
  "JSON_parse_object (JSON_stringify_user u)
   = Some ([(''id'', user_id u), (''email'', user_email u), (''name'', user_name u)]
           @ (case user_photo u of None \<Rightarrow> [] | Some p \<Rightarrow> [(''photo'', p)]))"
  by (cases "user_photo u")
     (simp_all add: JSON_stringify_user_def JSON_parse_object_member parse_members_member
        parse_members_close end_of_text_Nil del: parse_members.simps)

lemma JSON_parse_stringify_user: "JSON_parse_user (JSON_stringify_user u) = Some u"
  by (cases "user_photo u")
     (simp_all add: JSON_parse_user_def JSON_parse_object_stringify_user)

lemma JSON_stringify_user_not_Nil: "JSON_stringify_user u \<noteq> []"
  by (simp add: JSON_stringify_user_def)

section \<open>Listing one folder\<close>

lemma listPhotosInFolder_ok:
  assumes "actualFolderId folderId = Inr actual"
    and "drive_accessToken w = Some tok" and "truthy tok"
    and "drive_endpoint net ''files'' (listing_params actual) tok = OkBody files"
  shows "listPhotosInFolder net folderId w
         = (Inr (map (to_photo tok) (filter is_image files)),
            fetch (DriveRequest ''files'' (listing_params actual) tok) w)"
  using assms
  by (simp add: listPhotosInFolder_def makeDriveRequest_def Let_def fetch_def)

lemma listPhotosInFolder_same_id:
  assumes "actualFolderId a = actualFolderId b"
  shows "listPhotosInFolder net a w = listPhotosInFolder net b w"
  using assms by (simp add: listPhotosInFolder_def)

lemma makeDriveRequest_fst:
  "drive_accessToken w = drive_accessToken w'
   \<Longrightarrow> fst (makeDriveRequest net ep ps w) = fst (makeDriveRequest net ep ps w')"
  by (simp add: makeDriveRequest_def Let_def split: option.splits response.splits)

lemma makeDriveRequest_snd:
  "drive_accessToken (snd (makeDriveRequest net ep ps w)) = drive_accessToken w
   \<and> localStorage (snd (makeDriveRequest net ep ps w)) = localStorage w
   \<and> (\<exists>xs. console_errors (snd (makeDriveRequest net ep ps w)) = console_errors w @ xs)"
  by (simp add: makeDriveRequest_def Let_def fetch_def split: option.splits response.splits)

lemma listPhotosInFolder_fst:
  assumes "drive_accessToken w = drive_accessToken w'"
  shows "fst (listPhotosInFolder net f w) = fst (listPhotosInFolder net f w')"
proof (cases "actualFolderId f")
  case (Inl e)
  then show ?thesis by (simp add: listPhotosInFolder_def)
next
  case (Inr actual)
  let ?m = "makeDriveRequest net ''files'' (listing_params actual) w"
  let ?m' = "makeDriveRequest net ''files'' (listing_params actual) w'"
  have 1: "fst ?m = fst ?m'" using assms by (rule makeDriveRequest_fst)
  have 2: "drive_accessToken (snd ?m) = drive_accessToken (snd ?m')"
    using assms by (simp add: makeDriveRequest_snd)
  obtain r v where m: "?m = (r, v)" by (cases ?m)
  obtain r' v' where m': "?m' = (r', v')" by (cases ?m')
  from 1 2 m m' have "r = r'" "drive_accessToken v = drive_accessToken v'" by simp_all
  then show ?thesis
    by (simp add: listPhotosInFolder_def Inr m m' Let_def split: sum.splits)
qed

lemma listPhotosInFolder_snd:
  "drive_accessToken (snd (listPhotosInFolder net f w)) = drive_accessToken w
   \<and> localStorage (snd (listPhotosInFolder net f w)) = localStorage w
   \<and> (\<exists>xs. console_errors (snd (listPhotosInFolder net f w)) = console_errors w @ xs)"
proof (cases "actualFolderId f")
  case (Inl e)
  then show ?thesis by (simp add: listPhotosInFolder_def console_error_def)
next
  case (Inr actual)
  let ?m = "makeDriveRequest net ''files'' (listing_params actual) w"
  obtain r v where m: "?m = (r, v)" by (cases ?m)
  have "drive_accessToken v = drive_accessToken w \<and> localStorage v = localStorage w
      \<and> (\<exists>xs. console_errors v = console_errors w @ xs)"
    using makeDriveRequest_snd [of net "''files''" "listing_params actual" w] by (simp add: m)
  then show ?thesis
    by (auto simp: listPhotosInFolder_def Inr m Let_def console_error_def split: sum.splits)
qed

lemma folder_photos_cong:
  "drive_accessToken w = drive_accessToken w'
   \<Longrightarrow> folder_photos net w root = folder_photos net w' root"
  by (rule ext) (simp add: folder_photos_def folder_listing_def listPhotosInFolder_fst [of w w'])

lemma fst_load_folders:
  "fst (load_folders net root ids acc w) = acc @ concat (map (folder_photos net w root) ids)"
proof (induction ids arbitrary: acc w)
  case Nil
  show ?case by simp
next
  case (Cons f ids)
  let ?actual = "if f = ''root'' then root else f"
  obtain r v where l: "listPhotosInFolder net ?actual w = (r, v)"
    by (cases "listPhotosInFolder net ?actual w")
  have tok: "drive_accessToken v = drive_accessToken w"
    using listPhotosInFolder_snd [of net ?actual w] by (simp add: l)
  have here: "folder_photos net w root f = (case r of Inr photos \<Rightarrow> photos | Inl _ \<Rightarrow> [])"
    by (simp add: folder_photos_def folder_listing_def l)
  show ?case
  proof (cases r)
    case (Inl e)
    let ?v = "console_error (folder_error f) v"
    have "drive_accessToken ?v = drive_accessToken w"
      using tok by (simp add: console_error_def)
    then have "folder_photos net ?v root = folder_photos net w root"
      by (rule folder_photos_cong)
    with Cons.IH [of acc ?v] here Inl l show ?thesis by (simp add: Let_def)
  next
    case (Inr photos)
    have "folder_photos net v root = folder_photos net w root"
      using tok by (rule folder_photos_cong)
    with Cons.IH [of "acc @ photos" v] here Inr l show ?thesis by (simp add: Let_def)
  qed
qed

lemma console_errors_load_folders:
  "\<exists>xs. console_errors (snd (load_folders net root ids acc w)) = console_errors w @ xs"
proof (induction ids arbitrary: acc w)
  case Nil
  show ?case by simp
next
  case (Cons f ids)
  let ?actual = "if f = ''root'' then root else f"
  obtain r v where l: "listPhotosInFolder net ?actual w = (r, v)"
    by (cases "listPhotosInFolder net ?actual w")
  obtain xs where xs: "console_errors v = console_errors w @ xs"
    using listPhotosInFolder_snd [of net ?actual w] by (auto simp: l)
  show ?case
  proof (cases r)
    case (Inl e)
    let ?v = "console_error (folder_error f) v"
    obtain ys where "console_errors (snd (load_folders net root ids acc ?v)) = console_errors ?v @ ys"
      using Cons.IH [of acc ?v] by blast
    with xs Inl l show ?thesis by (simp add: Let_def console_error_def)
  next
    case (Inr photos)
    obtain ys where "console_errors (snd (load_folders net root ids (acc @ photos) v))
        = console_errors v @ ys"
      using Cons.IH [of "acc @ photos" v] by blast
    with xs Inr l show ?thesis by (simp add: Let_def)
  qed
qed

lemma failed_folder_logged:
  assumes "f \<in> set ids" "folder_fails net w root f"
  shows "folder_error f
         \<in> set (console_errors (snd (load_folders net root ids acc w)))"
  using assms
proof (induction ids arbitrary: acc w)
  case Nil
  then show ?case by simp
next
  case (Cons g ids)
  let ?actual = "if g = ''root'' then root else g"
  obtain r v where l: "listPhotosInFolder net ?actual w = (r, v)"
    by (cases "listPhotosInFolder net ?actual w")
  have tok: "drive_accessToken v = drive_accessToken w"
    using listPhotosInFolder_snd [of net ?actual w] by (simp add: l)
  let ?v = "console_error (folder_error g) v"
  have fails_cong: "folder_fails net u root f = folder_fails net w root f"
    if "drive_accessToken u = drive_accessToken w" for u
    using that by (simp add: folder_fails_def folder_listing_def listPhotosInFolder_fst [of u w])
  show ?case
  proof (cases "f = g")
    case True
    with Cons.prems(2) l obtain e where r: "r = Inl e"
      by (cases r) (auto simp: folder_fails_def folder_listing_def)
    obtain ys where "console_errors (snd (load_folders net root ids acc ?v)) = console_errors ?v @ ys"
      using console_errors_load_folders [of net root ids acc ?v] by blast
    with r l True show ?thesis by (simp add: Let_def console_error_def)
  next
    case False
    with Cons.prems have in_rest: "f \<in> set ids" by simp
    show ?thesis
    proof (cases r)
      case (Inl e)
      have "folder_fails net ?v root f"
        using Cons.prems(2) tok fails_cong [of ?v] by (simp add: console_error_def)
      from Cons.IH [OF in_rest this, of acc] Inl l show ?thesis by (simp add: Let_def)
    next
      case (Inr photos)
      have "folder_fails net v root f"
        using Cons.prems(2) tok fails_cong [of v] by simp
      from Cons.IH [OF in_rest this, of "acc @ photos"] Inr l show ?thesis by (simp add: Let_def)
    qed
  qed
qed

lemma concat_skip_failed:
  "concat (map (folder_photos net w root) ids)
   = concat (map (folder_photos net w root) (filter (\<lambda>f. \<not> folder_fails net w root f) ids))"
  by (induction ids) (auto simp: folder_photos_def folder_fails_def split: sum.splits)

section \<open>Deduplication by id\<close>

lemma findIndex_first:
  assumes "P x"
  shows "(findIndex P (pre @ x # rest) = int (length pre)) = (\<forall>y \<in> set pre. \<not> P y)"
proof (induction pre)
  case Nil
  show ?case using assms by simp
next
  case (Cons y pre)
  show ?case
  proof (cases "P y")
    case True
    then show ?thesis by simp
  next
    case False
    let ?k = "findIndex P (pre @ x # rest)"
    have "((if ?k < 0 then - 1 else ?k + 1) = int (Suc (length pre))) = (?k = int (length pre))"
      by auto
    with False Cons.IH show ?thesis by (simp add: Let_def)
  qed
qed

lemma keep_first_cong:
  "set seen = set seen' \<Longrightarrow> keep_first seen xs = keep_first seen' xs"
proof (induction xs arbitrary: seen seen')
  case Nil
  show ?case by simp
next
  case (Cons p ps)
  have "set (seen @ [photo_id p]) = set (seen' @ [photo_id p])"
    using Cons.prems by simp
  then have "keep_first (seen @ [photo_id p]) ps = keep_first (seen' @ [photo_id p]) ps"
    by (rule Cons.IH)
  moreover have "keep_first seen ps = keep_first seen' ps"
    using Cons.prems by (rule Cons.IH)
  ultimately show ?case using Cons.prems by simp
qed

lemma filter_first_index:
  "map snd (filter (\<lambda>(index, photo).
        int index = findIndex (\<lambda>p. photo_id p = photo_id photo) (pre @ xs))
      (enumerate (length pre) xs))
   = keep_first (map photo_id pre) xs"
proof (induction xs arbitrary: pre)
  case Nil
  show ?case by simp
next
  case (Cons x xs)
  have head: "(int (length pre) = findIndex (\<lambda>p. photo_id p = photo_id x) (pre @ x # xs))
      = (photo_id x \<notin> set (map photo_id pre))"
  proof -
    have "(findIndex (\<lambda>p. photo_id p = photo_id x) (pre @ x # xs) = int (length pre))
        = (\<forall>y \<in> set pre. photo_id y \<noteq> photo_id x)"
      by (rule findIndex_first) simp
    also have "\<dots> = (photo_id x \<notin> set (map photo_id pre))"
      by (auto simp: image_iff)
    finally show ?thesis by (simp add: eq_commute)
  qed
  have tail: "map snd (filter (\<lambda>(index, photo).
        int index = findIndex (\<lambda>p. photo_id p = photo_id photo) (pre @ x # xs))
      (enumerate (Suc (length pre)) xs))
    = keep_first (map photo_id pre @ [photo_id x]) xs"
    using Cons.IH [of "pre @ [x]"] by simp
  show ?case
  proof (cases "photo_id x \<in> set (map photo_id pre)")
    case True
    then have "set (map photo_id pre @ [photo_id x]) = set (map photo_id pre)" by auto
    then have "keep_first (map photo_id pre @ [photo_id x]) xs = keep_first (map photo_id pre) xs"
      by (rule keep_first_cong)
    with True head tail show ?thesis by simp
  next
    case False
    with head tail show ?thesis by simp
  qed
qed

lemma uniquePhotos_keep_first: "uniquePhotos xs = keep_first [] xs"
  using filter_first_index [of "[]" xs] by (simp add: uniquePhotos_def)

lemma set_keep_first:
  "set (map photo_id (keep_first seen xs)) = set (map photo_id xs) - set seen"
  by (induction xs arbitrary: seen) auto

lemma distinct_keep_first: "distinct (map photo_id (keep_first seen xs))"
proof (induction xs arbitrary: seen)
  case Nil
  show ?case by simp
next
  case (Cons p ps)
  have "photo_id p \<notin> set (map photo_id (keep_first (seen @ [photo_id p]) ps))"
    by (simp only: set_keep_first) simp
  with Cons.IH show ?case by simp
qed

lemma subseq_keep_first: "subseq (keep_first seen xs) xs"
  by (induction xs arbitrary: seen) auto

lemma keep_first_is_first:
  "p \<in> set (keep_first seen xs) \<Longrightarrow> find (\<lambda>q. photo_id q = photo_id p) xs = Some p"
proof (induction xs arbitrary: seen)
  case Nil
  then show ?case by simp
next
  case (Cons x xs)
  show ?case
  proof (cases "photo_id x \<in> set seen")
    case True
    with Cons.prems have in_rest: "p \<in> set (keep_first seen xs)" by simp
    then have "photo_id p \<in> set (map photo_id (keep_first seen xs))" by simp
    then have "photo_id p \<notin> set seen" by (simp only: set_keep_first) simp
    with True have "photo_id x \<noteq> photo_id p" by auto
    with Cons.IH [OF in_rest] show ?thesis by simp
  next
    case False
    show ?thesis
    proof (cases "p = x")
      case True
      then show ?thesis by simp
    next
      case ne: False
      with Cons.prems False have in_rest: "p \<in> set (keep_first (seen @ [photo_id x]) xs)"
        by simp
      then have "photo_id p \<in> set (map photo_id (keep_first (seen @ [photo_id x]) xs))" by simp
      then have "photo_id p \<notin> set (seen @ [photo_id x])" by (simp only: set_keep_first) simp
      then have "photo_id x \<noteq> photo_id p" by auto
      with Cons.IH [OF in_rest] show ?thesis by simp
    qed
  qed
qed

section \<open>Aggregation\<close>

lemma loadPhotosFromDrive_loaded:
  assumes "getItem ''shared_moments_folder_url'' (localStorage w) = Some savedUrl"
    and "truthy savedUrl"
    and "match_folders savedUrl = Some rootFolderId"
    and "selected_folderIds w = Some folderIds"
  shows "loadPhotosFromDrive net (a, w)
    = (a\<lparr>isLoadingPhotos := False, photoError := None,
          drivePhotos := uniquePhotos (fst (load_folders net rootFolderId folderIds [] w))\<rparr>,
       snd (load_folders net rootFolderId folderIds [] w))"
  using assms by (simp add: loadPhotosFromDrive_def Let_def split: prod.splits)

section \<open>The authentication service\<close>

lemma getItem_setItem: "getItem k (setItem k' v st) = (if k = k' then Some v else getItem k st)"
  by (simp add: getItem_def setItem_def)

lemma getItem_removeItem: "getItem k (removeItem k' st) = (if k = k' then None else getItem k st)"
  by (simp add: getItem_def removeItem_def)

lemma remove_pending_simps:
  "localStorage (remove_pending w)
     = removeItem ''oauth_completion_time'' (removeItem ''temp_auth_code'' (localStorage w))"
  "currentUser (remove_pending w) = currentUser w"
  "accessToken (remove_pending w) = accessToken w"
  "drive_accessToken (remove_pending w) = drive_accessToken w"
  "requests (remove_pending w) = requests w"
  "console_errors (remove_pending w) = console_errors w"
  by (simp_all add: remove_pending_def Let_def)

lemma processAuthCode_begin_storage:
  "localStorage (fst (processAuthCode_begin e code w)) = localStorage w"
  by (simp add: processAuthCode_begin_def fetch_def console_error_def
      split: option.splits)

lemma processAuthCode_begin_requests:
  "requests (fst (processAuthCode_begin e code w))
   = (case snd (processAuthCode_begin e code w) of
        None \<Rightarrow> requests w
      | Some (clientId, clientSecret) \<Rightarrow> requests w @ [TokenRequest clientId clientSecret code])"
  by (simp add: processAuthCode_begin_def fetch_def console_error_def
      split: option.splits)

lemma processAuthCode_begin_configured:
  assumes "REACT_APP_GOOGLE_CLIENT_ID e = Some clientId" "truthy clientId"
    and "REACT_APP_GOOGLE_CLIENT_SECRET e = Some clientSecret" "truthy clientSecret"
  shows "processAuthCode_begin e code w
    = (fetch (TokenRequest clientId clientSecret code) w, Some (clientId, clientSecret))"
  using assms by (simp add: processAuthCode_begin_def)

lemma checkForOAuthCompletion_present:
  assumes "getItem ''temp_auth_code'' (localStorage w) = Some code" "truthy code"
    and "getItem ''oauth_completion_time'' (localStorage w) = Some time" "truthy time"
  shows "checkForOAuthCompletion e now w =
    (if (case parseInt time of None \<Rightarrow> False | Some t \<Rightarrow> now - t < 5 * 60 * 1000)
     then (remove_pending (fst (processAuthCode_begin e code w)),
           map_option (\<lambda>(clientId, clientSecret). (clientId, clientSecret, code))
             (snd (processAuthCode_begin e code w)))
     else (remove_pending w, None))"
  using assms
  by (simp add: checkForOAuthCompletion_def Let_def split: option.splits prod.splits)

lemma checkForOAuthCompletion_removed:
  assumes "getItem ''temp_auth_code'' (localStorage w) = Some code" "truthy code"
    and "getItem ''oauth_completion_time'' (localStorage w) = Some time" "truthy time"
  shows "getItem ''temp_auth_code'' (localStorage (fst (checkForOAuthCompletion e now w))) = None
    \<and> getItem ''oauth_completion_time'' (localStorage (fst (checkForOAuthCompletion e now w))) = None"
  by (simp add: checkForOAuthCompletion_present [OF assms] remove_pending_simps
      getItem_removeItem)

lemma loadStoredAuth_pending_keys:
  "getItem ''temp_auth_code'' (localStorage (loadStoredAuth w))
     = getItem ''temp_auth_code'' (localStorage w)
   \<and> getItem ''oauth_completion_time'' (localStorage (loadStoredAuth w))
     = getItem ''oauth_completion_time'' (localStorage w)"
  by (simp add: loadStoredAuth_def Let_def clearStoredAuth_def console_error_def
      setAccessToken_def getItem_removeItem split: option.splits)

lemma loadStoredAuth_requests: "requests (loadStoredAuth w) = requests w"
  by (simp add: loadStoredAuth_def Let_def clearStoredAuth_def console_error_def
      setAccessToken_def split: option.splits)

lemma setAuthenticatedUser_pending_keys:
  "getItem ''temp_auth_code'' (localStorage (setAuthenticatedUser u tok w))
     = getItem ''temp_auth_code'' (localStorage w)
   \<and> getItem ''oauth_completion_time'' (localStorage (setAuthenticatedUser u tok w))
     = getItem ''oauth_completion_time'' (localStorage w)"
  by (simp add: setAuthenticatedUser_def Let_def setAccessToken_def getItem_setItem)

lemma setAuthenticatedUser_requests: "requests (setAuthenticatedUser u tok w) = requests w"
  by (simp add: setAuthenticatedUser_def Let_def setAccessToken_def)

lemma processAuthCode_resume_pending_keys:
  "getItem ''temp_auth_code'' (localStorage (processAuthCode_resume net cid sec code w))
     = getItem ''temp_auth_code'' (localStorage w)
   \<and> getItem ''oauth_completion_time'' (localStorage (processAuthCode_resume net cid sec code w))
     = getItem ''oauth_completion_time'' (localStorage w)"
  by (simp add: processAuthCode_resume_def Let_def console_error_def fetch_def
      setAuthenticatedUser_pending_keys split: response.splits)

lemma processAuthCode_resume_requests:
  "\<exists>xs. requests (processAuthCode_resume net cid sec code w) = requests w @ xs"
  by (simp add: processAuthCode_resume_def Let_def console_error_def fetch_def
      setAuthenticatedUser_requests split: response.splits)

lemma processAuthCode_configured:
  assumes "REACT_APP_GOOGLE_CLIENT_ID e = Some clientId" "truthy clientId"
    and "REACT_APP_GOOGLE_CLIENT_SECRET e = Some clientSecret" "truthy clientSecret"
  shows "processAuthCode e net code w
    = processAuthCode_resume net clientId clientSecret code
        (fetch (TokenRequest clientId clientSecret code) w)"
  by (simp add: processAuthCode_def processAuthCode_begin_configured [OF assms])

lemma stored_session:
  "getItem ''google_auth_user'' (localStorage (setAuthenticatedUser user token w))
     = Some (JSON_stringify_user user)
   \<and> getItem ''google_auth_token'' (localStorage (setAuthenticatedUser user token w))
     = Some (js_string token)"
  by (simp add: setAuthenticatedUser_def Let_def setAccessToken_def getItem_setItem)

lemma loadStoredAuth_session:
  assumes "getItem ''google_auth_user'' (localStorage w) = Some (JSON_stringify_user user)"
    and "getItem ''google_auth_token'' (localStorage w) = Some token"
  shows "loadStoredAuth w =
    (if truthy token
     then w\<lparr>currentUser := Some user, accessToken := Some token, drive_accessToken := Some token\<rparr>
     else w)"
  using assms JSON_stringify_user_not_Nil [of user]
  by (simp add: loadStoredAuth_def Let_def truthy_def truthy_opt_def JSON_parse_stringify_user
      setAccessToken_def)

lemma signOut_simps:
  "currentUser (signOut w) = None"
  "accessToken (signOut w) = None"
  "localStorage (signOut w)
     = removeItem ''oauth_completion_time'' (removeItem ''temp_auth_code''
         (removeItem ''google_auth_token'' (removeItem ''google_auth_user'' (localStorage w))))"
  by (simp_all add: signOut_def clearStoredAuth_def Let_def)

lemma new_GoogleAuthService_nothing_stored:
  assumes "getItem ''temp_auth_code'' st = None"
    and "getItem ''google_auth_user'' st = None"
  shows "new_GoogleAuthService e net now st = fresh_world st"
proof -
  have "checkForOAuthCompletion e now (fresh_world st) = (fresh_world st, None)"
    using assms(1) by (simp add: checkForOAuthCompletion_def fresh_world_def Let_def)
  moreover have "loadStoredAuth (fresh_world st) = fresh_world st"
    using assms(2) by (simp add: loadStoredAuth_def fresh_world_def Let_def)
  ultimately show ?thesis by (simp add: new_GoogleAuthService_def)
qed

section \<open>Examples\<close>

lemma ex_world_savedUrl: "getItem ''shared_moments_folder_url'' (localStorage ex_world) = Some ex_url"
  by (simp add: ex_world_def fresh_world_def ex_storage_def getItem_def)

lemma ex_url_truthy: "truthy ex_url"
  by (simp add: truthy_def ex_url_def)

lemma ex_url_root: "match_folders ex_url = Some ''XYZ123''"
  by (simp add: ex_url_def seg_char_def)

lemma ex_world_selection: "selected_folderIds ex_world = Some [''root'', ''sub1'', ''sub2'']"
proof -
  have "JSON_stringify_ids [''root'', ''sub1'', ''sub2''] \<noteq> []"
    by (simp add: JSON_stringify_ids_def)
  then show ?thesis
    by (simp add: selected_folderIds_def ex_world_def fresh_world_def ex_storage_def getItem_def
        truthy_def JSON_parse_stringify_ids)
qed

lemma ex_folder_root:
  "folder_listing ex_network ex_world ''XYZ123'' ''root''
   = Inr (map (to_photo ''token'') [ex_file ''A'', ex_file ''B''])"
  by (simp add: folder_listing_def listPhotosInFolder_def actualFolderId_def
      makeDriveRequest_def ex_world_def fresh_world_def ex_network_def truthy_def Let_def
      is_image_def ex_file_def fetch_def)

lemma ex_folder_sub1:
  "folder_listing ex_network ex_world ''XYZ123'' ''sub1''
   = Inr (map (to_photo ''token'') [ex_file ''A'', ex_file ''C''])"
  by (simp add: folder_listing_def listPhotosInFolder_def actualFolderId_def
      makeDriveRequest_def ex_world_def fresh_world_def ex_network_def truthy_def Let_def
      is_image_def ex_file_def listing_params_def fetch_def)

lemma ex_folder_sub2:
  "folder_listing ex_network ex_world ''XYZ123'' ''sub2'' = Inl (DriveApiError 404 ''File not found'')"
  by (simp add: folder_listing_def listPhotosInFolder_def actualFolderId_def
      makeDriveRequest_def ex_world_def fresh_world_def ex_network_def truthy_def Let_def
      listing_params_def)

section \<open>The aggregated sequence\<close>

text \<open>
  Claim C1. For every stored folder selection (with a stored URL from which the
  root folder id resolves), the photo sequence that loadPhotosFromDrive shows is
  the concatenation of the per-folder listing results, folders in the stored
  order and each folder's photos in arrival order (a folder whose listing throws
  contributes nothing), with later duplicates removed by id: it keeps the first
  photo of each id, its ids are distinct, they are exactly the ids that occur in
  some folder's result, it is a subsequence of the concatenation, and each of its
  photos is the first photo of its id there.
\<close>

theorem C1_aggregate_deduplicated:
  assumes "getItem ''shared_moments_folder_url'' (localStorage w) = Some savedUrl"
    and "truthy savedUrl"
    and "match_folders savedUrl = Some rootFolderId"
    and "selected_folderIds w = Some folderIds"
    and "allPhotos = concat (map (folder_photos net w rootFolderId) folderIds)"
    and "shown = drivePhotos (fst (loadPhotosFromDrive net (a, w)))"
  shows "shown = keep_first [] allPhotos
       \<and> distinct (map photo_id shown)
       \<and> set (map photo_id shown) = set (map photo_id allPhotos)
       \<and> subseq shown allPhotos
       \<and> (\<forall>p \<in> set shown. find (\<lambda>q. photo_id q = photo_id p) allPhotos = Some p)"
proof -
  have "loadPhotosFromDrive net (a, w)
    = (a\<lparr>isLoadingPhotos := False, photoError := None,
          drivePhotos := uniquePhotos (fst (load_folders net rootFolderId folderIds [] w))\<rparr>,
       snd (load_folders net rootFolderId folderIds [] w))"
    using assms(1-4) by (rule loadPhotosFromDrive_loaded)
  then have "shown = uniquePhotos (fst (load_folders net rootFolderId folderIds [] w))"
    by (simp add: assms(6))
  also have "fst (load_folders net rootFolderId folderIds [] w) = allPhotos"
    by (simp add: fst_load_folders assms(5))
  finally have eq: "shown = keep_first [] allPhotos"
    by (simp add: uniquePhotos_keep_first)
  have "distinct (map photo_id shown)"
    unfolding eq by (rule distinct_keep_first)
  moreover have "set (map photo_id shown) = set (map photo_id allPhotos)"
    unfolding eq by (simp only: set_keep_first) simp
  moreover have "subseq shown allPhotos"
    unfolding eq by (rule subseq_keep_first)
  moreover have "\<forall>p \<in> set shown. find (\<lambda>q. photo_id q = photo_id p) allPhotos = Some p"
    unfolding eq by (blast intro: keep_first_is_first)
  ultimately show ?thesis using eq by blast
qed

theorem C1_aggregate_deduplicated_witness:
  "map photo_id (drivePhotos (fst (loadPhotosFromDrive ex_network (ex_app, ex_world))))
   = [''A'', ''B'', ''C'']"
  using C1_aggregate_deduplicated [OF ex_world_savedUrl ex_url_truthy ex_url_root ex_world_selection
      refl refl, of ex_network ex_app]
  by (simp add: folder_photos_def ex_folder_root ex_folder_sub1 ex_folder_sub2 to_photo_def
      ex_file_def)

section \<open>The root folder id\<close>

lemma match_folders_first:
  assumes "\<not> includes_js (p @ ''/folders'') ''/folders/''"
    and "seg \<noteq> []" and "\<forall>c \<in> set seg. seg_char c"
    and "rest = [] \<or> \<not> seg_char (hd rest)"
  shows "match_folders (p @ ''/folders/'' @ seg @ rest) = Some seg"
  using assms(1)
proof (induction p)
  case Nil
  have "takeWhile seg_char (seg @ rest) = seg"
    using assms(3,4) by (cases rest) (simp_all add: takeWhile_append2)
  then show ?case using assms(2) by simp
next
  case (Cons c p)
  have np: "\<not> prefix ''/folders/'' (c # p @ ''/folders'')"
    and rest: "\<not> includes_js (p @ ''/folders'') ''/folders/''"
    using Cons.prems by auto
  define t where "t = p @ ''/folders/'' @ seg @ rest"
  have eq: "c # t = (c # p @ ''/folders'') @ (''/'' @ seg @ rest)"
    by (simp add: t_def)
  have "\<not> prefix ''/folders/'' (c # t)"
  proof
    assume "prefix ''/folders/'' (c # t)"
    then have "prefix ''/folders/'' ((c # p @ ''/folders'') @ (''/'' @ seg @ rest))"
      unfolding eq .
    moreover have "length ''/folders/'' \<le> length (c # p @ ''/folders'')" by simp
    ultimately have "prefix ''/folders/'' (c # p @ ''/folders'')"
      by (rule prefix_append_short)
    with np show False ..
  qed
  moreover have "match_folders t = Some seg"
    unfolding t_def using rest by (rule Cons.IH)
  ultimately have "match_folders (c # t) = Some seg"
    by (simp only: match_folders.simps simp_thms if_False)
  then show ?case by (simp add: t_def)
qed

text \<open>
  Claim C2, as amended. Root-folder resolution extracts the path segment after
  the first \<open>/folders/\<close> of the stored URL, up to the next \<open>/\<close> or \<open>?\<close> (the
  segment being non-empty); the example URL resolves to \<open>XYZ123\<close>. For every
  non-empty stored URL without \<open>/folders/\<close>, when the stored selection is absent
  or parses, loadPhotosFromDrive ends with the invalid-folder-URL error and
  leaves everything else as it was, so no listing call is made. An empty stored
  URL is reported as not configured instead.
\<close>

theorem C2_root_folder_resolution:
  "(\<not> includes_js (p @ ''/folders'') ''/folders/'' \<and> seg \<noteq> [] \<and> (\<forall>c \<in> set seg. seg_char c)
      \<and> (rest = [] \<or> \<not> seg_char (hd rest))
      \<longrightarrow> match_folders (p @ ''/folders/'' @ seg @ rest) = Some seg)
   \<and> match_folders ''https://drive.example.com/drive/folders/XYZ123?usp=sharing'' = Some ''XYZ123''
   \<and> (getItem ''shared_moments_folder_url'' (localStorage w) = Some savedUrl
      \<and> savedUrl \<noteq> [] \<and> \<not> includes_js savedUrl ''/folders/'' \<and> selected_folderIds w \<noteq> None
      \<longrightarrow> loadPhotosFromDrive net (a, w)
          = (a\<lparr>isLoadingPhotos := False, photoError := Some InvalidFolderUrl\<rparr>, w))
   \<and> (getItem ''shared_moments_folder_url'' (localStorage w) = Some []
      \<longrightarrow> loadPhotosFromDrive net (a, w)
          = (a\<lparr>isLoadingPhotos := False, photoError := Some NoFolderUrl\<rparr>, w))"
proof (intro conjI impI)
  assume "\<not> includes_js (p @ ''/folders'') ''/folders/'' \<and> seg \<noteq> [] \<and> (\<forall>c \<in> set seg. seg_char c)
      \<and> (rest = [] \<or> \<not> seg_char (hd rest))"
  then show "match_folders (p @ ''/folders/'' @ seg @ rest) = Some seg"
    by (intro match_folders_first) simp_all
next
  show "match_folders ''https://drive.example.com/drive/folders/XYZ123?usp=sharing'' = Some ''XYZ123''"
    by (simp add: seg_char_def)
next
  assume h: "getItem ''shared_moments_folder_url'' (localStorage w) = Some savedUrl
      \<and> savedUrl \<noteq> [] \<and> \<not> includes_js savedUrl ''/folders/'' \<and> selected_folderIds w \<noteq> None"
  then have "match_folders savedUrl = None" by (simp add: match_folders_none)
  with h show "loadPhotosFromDrive net (a, w)
          = (a\<lparr>isLoadingPhotos := False, photoError := Some InvalidFolderUrl\<rparr>, w)"
    by (auto simp: loadPhotosFromDrive_def truthy_def Let_def)
next
  assume "getItem ''shared_moments_folder_url'' (localStorage w) = Some []"
  then show "loadPhotosFromDrive net (a, w)
          = (a\<lparr>isLoadingPhotos := False, photoError := Some NoFolderUrl\<rparr>, w)"
    by (simp add: loadPhotosFromDrive_def truthy_def Let_def)
qed

theorem C2_root_folder_resolution_witness:
  "match_folders (''https://drive.example.com/drive'' @ ''/folders/'' @ ''XYZ123'' @ ''?usp=sharing'')
     = Some ''XYZ123''
   \<and> loadPhotosFromDrive ex_network (ex_app, world_with_url ''https://drive.example.com/drive/'')
     = (ex_app\<lparr>isLoadingPhotos := False, photoError := Some InvalidFolderUrl\<rparr>,
        world_with_url ''https://drive.example.com/drive/'')
   \<and> requests (snd (loadPhotosFromDrive ex_network
         (ex_app, world_with_url ''https://drive.example.com/drive/''))) = []
   \<and> loadPhotosFromDrive ex_network (ex_app, world_with_url [])
     = (ex_app\<lparr>isLoadingPhotos := False, photoError := Some NoFolderUrl\<rparr>, world_with_url [])"
proof -
  have 1: "\<not> includes_js (''https://drive.example.com/drive'' @ ''/folders'') ''/folders/''
     \<and> ''XYZ123'' \<noteq> [] \<and> (\<forall>c \<in> set ''XYZ123''. seg_char c)
     \<and> (''?usp=sharing'' = [] \<or> \<not> seg_char (hd ''?usp=sharing''))"
    by (simp add: seg_char_def)
  have 2: "getItem ''shared_moments_folder_url''
        (localStorage (world_with_url ''https://drive.example.com/drive/''))
        = Some ''https://drive.example.com/drive/''
     \<and> ''https://drive.example.com/drive/'' \<noteq> []
     \<and> \<not> includes_js ''https://drive.example.com/drive/'' ''/folders/''
     \<and> selected_folderIds (world_with_url ''https://drive.example.com/drive/'') \<noteq> None"
    by (simp add: world_with_url_def fresh_world_def getItem_def selected_folderIds_def)
  have 3: "getItem ''shared_moments_folder_url'' (localStorage (world_with_url [])) = Some []"
    by (simp add: world_with_url_def fresh_world_def getItem_def)
  have 4: "requests (world_with_url ''https://drive.example.com/drive/'') = []"
    by (simp add: world_with_url_def fresh_world_def)
  show ?thesis
    using C2_root_folder_resolution [of "''https://drive.example.com/drive''" "''XYZ123''"
        "''?usp=sharing''" "world_with_url ''https://drive.example.com/drive/''"
        "''https://drive.example.com/drive/''" ex_network ex_app]
      C2_root_folder_resolution [of "[]" "[]" "[]" "world_with_url []" "[]" ex_network ex_app]
      1 2 3 4
    by simp
qed

text \<open>
  The claim as first stated covers every stored URL without \<open>/folders/\<close>. The
  empty string is one, and for it the error is the not-configured one.
\<close>

theorem C2_root_folder_resolution_counterexample:
  "getItem ''shared_moments_folder_url'' (localStorage (world_with_url [])) = Some []
   \<and> \<not> includes_js [] ''/folders/''
   \<and> photoError (fst (loadPhotosFromDrive ex_network (ex_app, world_with_url []))) = Some NoFolderUrl
   \<and> NoFolderUrl \<noteq> InvalidFolderUrl"
  by (simp add: world_with_url_def fresh_world_def getItem_def loadPhotosFromDrive_def truthy_def
      Let_def NoFolderUrl_def InvalidFolderUrl_def)

section \<open>A folder whose listing fails\<close>

text \<open>
  Claim C4. If the listing of some selected folders fails while the others
  succeed, the photos shown are the deduplicated concatenation of the results of
  the folders that succeeded only; loadPhotosFromDrive reports no error to its
  caller (photoError stays empty, loading ends), and the failure of each such
  folder is logged.
\<close>

theorem C4_failed_folder_skipped:
  assumes "getItem ''shared_moments_folder_url'' (localStorage w) = Some savedUrl"
    and "truthy savedUrl"
    and "match_folders savedUrl = Some rootFolderId"
    and "selected_folderIds w = Some folderIds"
    and "succeeded = filter (\<lambda>f. \<not> folder_fails net w rootFolderId f) folderIds"
    and "result = loadPhotosFromDrive net (a, w)"
  shows "drivePhotos (fst result)
           = keep_first [] (concat (map (folder_photos net w rootFolderId) succeeded))
       \<and> photoError (fst result) = None
       \<and> isLoadingPhotos (fst result) = False
       \<and> (\<forall>f \<in> set folderIds. folder_fails net w rootFolderId f
              \<longrightarrow> folder_error f \<in> set (console_errors (snd result)))"
proof -
  have r: "result
    = (a\<lparr>isLoadingPhotos := False, photoError := None,
          drivePhotos := uniquePhotos (fst (load_folders net rootFolderId folderIds [] w))\<rparr>,
       snd (load_folders net rootFolderId folderIds [] w))"
    unfolding assms(6) using assms(1-4) by (rule loadPhotosFromDrive_loaded)
  have "fst (load_folders net rootFolderId folderIds [] w)
      = concat (map (folder_photos net w rootFolderId) folderIds)"
    by (simp add: fst_load_folders)
  also have "\<dots> = concat (map (folder_photos net w rootFolderId) succeeded)"
    unfolding assms(5) by (rule concat_skip_failed)
  finally have "drivePhotos (fst result)
      = keep_first [] (concat (map (folder_photos net w rootFolderId) succeeded))"
    by (simp add: r uniquePhotos_keep_first)
  moreover have "photoError (fst result) = None" "isLoadingPhotos (fst result) = False"
    by (simp_all add: r)
  moreover have "\<forall>f \<in> set folderIds. folder_fails net w rootFolderId f
      \<longrightarrow> folder_error f \<in> set (console_errors (snd result))"
    by (simp add: r failed_folder_logged)
  ultimately show ?thesis by blast
qed

theorem C4_failed_folder_skipped_witness:
  "folder_fails ex_network ex_world ''XYZ123'' ''sub2''
   \<and> filter (\<lambda>f. \<not> folder_fails ex_network ex_world ''XYZ123'' f) [''root'', ''sub1'', ''sub2'']
       = [''root'', ''sub1'']
   \<and> drivePhotos (fst (loadPhotosFromDrive ex_network (ex_app, ex_world)))
       = keep_first [] (folder_photos ex_network ex_world ''XYZ123'' ''root''
                        @ folder_photos ex_network ex_world ''XYZ123'' ''sub1'')
   \<and> photoError (fst (loadPhotosFromDrive ex_network (ex_app, ex_world))) = None
   \<and> folder_error ''sub2''
       \<in> set (console_errors (snd (loadPhotosFromDrive ex_network (ex_app, ex_world))))"
proof -
  have fails: "folder_fails ex_network ex_world ''XYZ123'' ''sub2''"
    "\<not> folder_fails ex_network ex_world ''XYZ123'' ''root''"
    "\<not> folder_fails ex_network ex_world ''XYZ123'' ''sub1''"
    by (simp_all add: folder_fails_def ex_folder_root ex_folder_sub1 ex_folder_sub2)
  then have succ: "filter (\<lambda>f. \<not> folder_fails ex_network ex_world ''XYZ123'' f)
      [''root'', ''sub1'', ''sub2''] = [''root'', ''sub1'']"
    by simp
  show ?thesis
    using C4_failed_folder_skipped [OF ex_world_savedUrl ex_url_truthy ex_url_root
        ex_world_selection succ [symmetric] refl, of ex_app] fails succ
    by simp
qed

section \<open>A pending authorization attempt at startup\<close>

text \<open>
  The check recognises a pending attempt by both records being present and
  non-empty. With such an attempt in the store, a fresh load at the time \<open>now\<close>
  removes both records, exchanges nothing when the timestamp is 5 minutes old
  or older, and begins processAuthCode with the stored code otherwise.
\<close>

lemma pending_attempt_startup:
  assumes "getItem ''temp_auth_code'' st = Some code" and "truthy code"
    and "getItem ''oauth_completion_time'' st = Some time" and "truthy time"
    and "final = new_GoogleAuthService e net now st"
  shows "getItem ''temp_auth_code'' (localStorage final) = None
       \<and> getItem ''oauth_completion_time'' (localStorage final) = None
       \<and> (\<forall>t. parseInt time = Some t \<and> 5 * 60 * 1000 \<le> now - t
            \<longrightarrow> snd (checkForOAuthCompletion e now (fresh_world st)) = None
                \<and> requests final = [])
       \<and> (parseInt time = Some (now - 301 * 1000) \<longrightarrow> requests final = [])
       \<and> (\<forall>t. parseInt time = Some t \<and> now - t < 5 * 60 * 1000
            \<longrightarrow> fst (checkForOAuthCompletion e now (fresh_world st))
                  = remove_pending (fst (processAuthCode_begin e code (fresh_world st))))
       \<and> (\<forall>t clientId clientSecret.
             parseInt time = Some t \<and> now - t < 5 * 60 * 1000
             \<and> REACT_APP_GOOGLE_CLIENT_ID e = Some clientId \<and> truthy clientId
             \<and> REACT_APP_GOOGLE_CLIENT_SECRET e = Some clientSecret \<and> truthy clientSecret
            \<longrightarrow> snd (checkForOAuthCompletion e now (fresh_world st))
                  = Some (clientId, clientSecret, code)
                \<and> (\<exists>more. requests final = TokenRequest clientId clientSecret code # more))
       \<and> (\<forall>clientId clientSecret.
             parseInt time = Some (now - 299 * 1000)
             \<and> REACT_APP_GOOGLE_CLIENT_ID e = Some clientId \<and> truthy clientId
             \<and> REACT_APP_GOOGLE_CLIENT_SECRET e = Some clientSecret \<and> truthy clientSecret
            \<longrightarrow> (\<exists>more. requests final = TokenRequest clientId clientSecret code # more))"
proof -
  let ?w0 = "fresh_world st"
  let ?chk = "checkForOAuthCompletion e now ?w0"
  have st: "getItem ''temp_auth_code'' (localStorage ?w0) = Some code"
    "getItem ''oauth_completion_time'' (localStorage ?w0) = Some time"
    using assms(1,3) by (simp_all add: fresh_world_def)
  note present = checkForOAuthCompletion_present [OF st(1) assms(2) st(2) assms(4), of e now]
  have removed: "getItem ''temp_auth_code'' (localStorage (fst ?chk)) = None
      \<and> getItem ''oauth_completion_time'' (localStorage (fst ?chk)) = None"
    using st(1) assms(2) st(2) assms(4) by (rule checkForOAuthCompletion_removed)
  have final: "final = (case snd ?chk of
        None \<Rightarrow> loadStoredAuth (fst ?chk)
      | Some (clientId, clientSecret, c) \<Rightarrow>
          processAuthCode_resume net clientId clientSecret c (loadStoredAuth (fst ?chk)))"
    by (cases ?chk) (simp add: assms(5) new_GoogleAuthService_def Let_def split: option.splits)
  have keys: "getItem ''temp_auth_code'' (localStorage final) = None
       \<and> getItem ''oauth_completion_time'' (localStorage final) = None"
    using removed
    by (simp add: final loadStoredAuth_pending_keys processAuthCode_resume_pending_keys
        split: option.splits)
  have expired: "snd ?chk = None \<and> requests final = []"
    if "parseInt time = Some t" "5 * 60 * 1000 \<le> now - t" for t
  proof -
    from that have "?chk = (remove_pending ?w0, None)"
      by (simp add: present)
    then show ?thesis
      by (simp add: final loadStoredAuth_requests remove_pending_simps fresh_world_def)
  qed
  have begun: "fst ?chk = remove_pending (fst (processAuthCode_begin e code ?w0))"
    if "parseInt time = Some t" "now - t < 5 * 60 * 1000" for t
    using that by (simp add: present)
  have recent: "snd ?chk = Some (clientId, clientSecret, code)
      \<and> (\<exists>more. requests final = TokenRequest clientId clientSecret code # more)"
    if "parseInt time = Some t" "now - t < 5 * 60 * 1000"
      "REACT_APP_GOOGLE_CLIENT_ID e = Some clientId" "truthy clientId"
      "REACT_APP_GOOGLE_CLIENT_SECRET e = Some clientSecret" "truthy clientSecret"
    for t clientId clientSecret
  proof -
    have b: "processAuthCode_begin e code ?w0
        = (fetch (TokenRequest clientId clientSecret code) ?w0, Some (clientId, clientSecret))"
      using that(3-6) by (rule processAuthCode_begin_configured)
    with that(1,2) have c: "?chk = (remove_pending (fetch (TokenRequest clientId clientSecret code) ?w0),
        Some (clientId, clientSecret, code))"
      by (simp add: present)
    let ?w2 = "loadStoredAuth (remove_pending (fetch (TokenRequest clientId clientSecret code) ?w0))"
    have "requests ?w2 = [TokenRequest clientId clientSecret code]"
      by (simp add: loadStoredAuth_requests remove_pending_simps fetch_def fresh_world_def)
    moreover obtain xs where
      "requests (processAuthCode_resume net clientId clientSecret code ?w2) = requests ?w2 @ xs"
      using processAuthCode_resume_requests by blast
    ultimately show ?thesis by (simp add: final c)
  qed
  have e301: "requests final = []" if "parseInt time = Some (now - 301 * 1000)"
    using expired [OF that] by simp
  have e299: "\<exists>more. requests final = TokenRequest clientId clientSecret code # more"
    if "parseInt time = Some (now - 299 * 1000)"
      "REACT_APP_GOOGLE_CLIENT_ID e = Some clientId" "truthy clientId"
      "REACT_APP_GOOGLE_CLIENT_SECRET e = Some clientSecret" "truthy clientSecret"
    for clientId clientSecret
    using recent [OF that(1) _ that(2-5)] by simp
  have c1: "getItem ''temp_auth_code'' (localStorage final) = None"
    and c2: "getItem ''oauth_completion_time'' (localStorage final) = None"
    using keys by simp_all
  have c3: "\<forall>t. parseInt time = Some t \<and> 5 * 60 * 1000 \<le> now - t
            \<longrightarrow> snd ?chk = None \<and> requests final = []"
    using expired by blast
  have c4: "parseInt time = Some (now - 301 * 1000) \<longrightarrow> requests final = []"
    using e301 by blast
  have c5: "\<forall>t. parseInt time = Some t \<and> now - t < 5 * 60 * 1000
            \<longrightarrow> fst ?chk = remove_pending (fst (processAuthCode_begin e code ?w0))"
    using begun by blast
  have c6: "\<forall>t clientId clientSecret.
             parseInt time = Some t \<and> now - t < 5 * 60 * 1000
             \<and> REACT_APP_GOOGLE_CLIENT_ID e = Some clientId \<and> truthy clientId
             \<and> REACT_APP_GOOGLE_CLIENT_SECRET e = Some clientSecret \<and> truthy clientSecret
            \<longrightarrow> snd ?chk = Some (clientId, clientSecret, code)
                \<and> (\<exists>more. requests final = TokenRequest clientId clientSecret code # more)"
    using recent by blast
  have c7: "\<forall>clientId clientSecret.
             parseInt time = Some (now - 299 * 1000)
             \<and> REACT_APP_GOOGLE_CLIENT_ID e = Some clientId \<and> truthy clientId
             \<and> REACT_APP_GOOGLE_CLIENT_SECRET e = Some clientSecret \<and> truthy clientSecret
            \<longrightarrow> (\<exists>more. requests final = TokenRequest clientId clientSecret code # more)"
    using e299 by blast
  show ?thesis
    using c1 c2 c3 c4 c5 c6 c7 by (intro conjI) assumption+
qed

lemma checkForOAuthCompletion_absent:
  assumes "\<not> (truthy_opt (getItem ''temp_auth_code'' (localStorage w))
              \<and> truthy_opt (getItem ''oauth_completion_time'' (localStorage w)))"
  shows "checkForOAuthCompletion e now w = (w, None)"
  using assms
  by (auto simp: checkForOAuthCompletion_def Let_def truthy_opt_def split: option.splits)

lemma no_pending_attempt_startup:
  assumes "\<not> (truthy_opt (getItem ''temp_auth_code'' st)
              \<and> truthy_opt (getItem ''oauth_completion_time'' st))"
    and "final = new_GoogleAuthService e net now st"
  shows "checkForOAuthCompletion e now (fresh_world st) = (fresh_world st, None)
       \<and> final = loadStoredAuth (fresh_world st)
       \<and> requests final = []
       \<and> getItem ''temp_auth_code'' (localStorage final) = getItem ''temp_auth_code'' st
       \<and> getItem ''oauth_completion_time'' (localStorage final)
           = getItem ''oauth_completion_time'' st"
proof -
  have "\<not> (truthy_opt (getItem ''temp_auth_code'' (localStorage (fresh_world st)))
         \<and> truthy_opt (getItem ''oauth_completion_time'' (localStorage (fresh_world st))))"
    using assms(1) by (simp add: fresh_world_def)
  then have chk: "checkForOAuthCompletion e now (fresh_world st) = (fresh_world st, None)"
    by (rule checkForOAuthCompletion_absent)
  then have final: "final = loadStoredAuth (fresh_world st)"
    by (simp add: assms(2) new_GoogleAuthService_def)
  have "requests final = []"
    by (simp add: final loadStoredAuth_requests fresh_world_def)
  moreover have "getItem ''temp_auth_code'' (localStorage final) = getItem ''temp_auth_code'' st"
    "getItem ''oauth_completion_time'' (localStorage final) = getItem ''oauth_completion_time'' st"
    by (simp_all add: final loadStoredAuth_pending_keys fresh_world_def)
  ultimately show ?thesis using chk final by simp
qed

text \<open>
  Claim C3, as amended. At startup (a fresh load at the time \<open>now\<close>), when the
  pending code record and the timestamp record are both present and non-empty:
  when all is done, whatever the servers answer (success, failure or expiry),
  both records are gone from the store. If the stored timestamp is 5 minutes or
  more in the past (301 seconds, say), no exchange is left pending and no request
  is ever sent. If it is less than 5 minutes in the past (299 seconds, say), the
  attempt is processed: processAuthCode is begun with the stored code, and when
  the credentials are configured the first request sent is the token exchange
  for that code. When one of the two records is missing or empty, the check does
  nothing: no request is sent and the records that are present stay in the
  store.
\<close>

theorem C3_pending_attempt_expiry:
  assumes "final = new_GoogleAuthService e net now st"
  shows "(getItem ''temp_auth_code'' st = Some code \<and> truthy code
          \<and> getItem ''oauth_completion_time'' st = Some time \<and> truthy time
        \<longrightarrow> getItem ''temp_auth_code'' (localStorage final) = None
            \<and> getItem ''oauth_completion_time'' (localStorage final) = None
            \<and> (\<forall>t. parseInt time = Some t \<and> 5 * 60 * 1000 \<le> now - t
                 \<longrightarrow> snd (checkForOAuthCompletion e now (fresh_world st)) = None
                     \<and> requests final = [])
            \<and> (parseInt time = Some (now - 301 * 1000) \<longrightarrow> requests final = [])
            \<and> (\<forall>t. parseInt time = Some t \<and> now - t < 5 * 60 * 1000
                 \<longrightarrow> fst (checkForOAuthCompletion e now (fresh_world st))
                       = remove_pending (fst (processAuthCode_begin e code (fresh_world st))))
            \<and> (\<forall>t clientId clientSecret.
                  parseInt time = Some t \<and> now - t < 5 * 60 * 1000
                  \<and> REACT_APP_GOOGLE_CLIENT_ID e = Some clientId \<and> truthy clientId
                  \<and> REACT_APP_GOOGLE_CLIENT_SECRET e = Some clientSecret \<and> truthy clientSecret
                 \<longrightarrow> snd (checkForOAuthCompletion e now (fresh_world st))
                       = Some (clientId, clientSecret, code)
                     \<and> (\<exists>more. requests final = TokenRequest clientId clientSecret code # more))
            \<and> (\<forall>clientId clientSecret.
                  parseInt time = Some (now - 299 * 1000)
                  \<and> REACT_APP_GOOGLE_CLIENT_ID e = Some clientId \<and> truthy clientId
                  \<and> REACT_APP_GOOGLE_CLIENT_SECRET e = Some clientSecret \<and> truthy clientSecret
                 \<longrightarrow> (\<exists>more. requests final = TokenRequest clientId clientSecret code # more)))
       \<and> (\<not> (truthy_opt (getItem ''temp_auth_code'' st)
               \<and> truthy_opt (getItem ''oauth_completion_time'' st))
        \<longrightarrow> checkForOAuthCompletion e now (fresh_world st) = (fresh_world st, None)
            \<and> final = loadStoredAuth (fresh_world st)
            \<and> requests final = []
            \<and> getItem ''temp_auth_code'' (localStorage final) = getItem ''temp_auth_code'' st
            \<and> getItem ''oauth_completion_time'' (localStorage final)
                = getItem ''oauth_completion_time'' st)"
proof (rule conjI; rule impI)
  assume h: "getItem ''temp_auth_code'' st = Some code \<and> truthy code
          \<and> getItem ''oauth_completion_time'' st = Some time \<and> truthy time"
  then have h1: "getItem ''temp_auth_code'' st = Some code" and h2: "truthy code"
    and h3: "getItem ''oauth_completion_time'' st = Some time" and h4: "truthy time"
    by simp_all
  show "getItem ''temp_auth_code'' (localStorage final) = None
            \<and> getItem ''oauth_completion_time'' (localStorage final) = None
            \<and> (\<forall>t. parseInt time = Some t \<and> 5 * 60 * 1000 \<le> now - t
                 \<longrightarrow> snd (checkForOAuthCompletion e now (fresh_world st)) = None
                     \<and> requests final = [])
            \<and> (parseInt time = Some (now - 301 * 1000) \<longrightarrow> requests final = [])
            \<and> (\<forall>t. parseInt time = Some t \<and> now - t < 5 * 60 * 1000
                 \<longrightarrow> fst (checkForOAuthCompletion e now (fresh_world st))
                       = remove_pending (fst (processAuthCode_begin e code (fresh_world st))))
            \<and> (\<forall>t clientId clientSecret.
                  parseInt time = Some t \<and> now - t < 5 * 60 * 1000
                  \<and> REACT_APP_GOOGLE_CLIENT_ID e = Some clientId \<and> truthy clientId
                  \<and> REACT_APP_GOOGLE_CLIENT_SECRET e = Some clientSecret \<and> truthy clientSecret
                 \<longrightarrow> snd (checkForOAuthCompletion e now (fresh_world st))
                       = Some (clientId, clientSecret, code)
                     \<and> (\<exists>more. requests final = TokenRequest clientId clientSecret code # more))
            \<and> (\<forall>clientId clientSecret.
                  parseInt time = Some (now - 299 * 1000)
                  \<and> REACT_APP_GOOGLE_CLIENT_ID e = Some clientId \<and> truthy clientId
                  \<and> REACT_APP_GOOGLE_CLIENT_SECRET e = Some clientSecret \<and> truthy clientSecret
                 \<longrightarrow> (\<exists>more. requests final = TokenRequest clientId clientSecret code # more))"
    using h1 h2 h3 h4 assms by (rule pending_attempt_startup)
next
  assume "\<not> (truthy_opt (getItem ''temp_auth_code'' st)
               \<and> truthy_opt (getItem ''oauth_completion_time'' st))"
  then show "checkForOAuthCompletion e now (fresh_world st) = (fresh_world st, None)
            \<and> final = loadStoredAuth (fresh_world st)
            \<and> requests final = []
            \<and> getItem ''temp_auth_code'' (localStorage final) = getItem ''temp_auth_code'' st
            \<and> getItem ''oauth_completion_time'' (localStorage final)
                = getItem ''oauth_completion_time'' st"
    using assms by (rule no_pending_attempt_startup)
qed

theorem C3_pending_attempt_expiry_witness:
  "requests (new_GoogleAuthService ex_env ex_network 1301000 ex_pending) = []
   \<and> getItem ''temp_auth_code''
        (localStorage (new_GoogleAuthService ex_env ex_network 1301000 ex_pending)) = None
   \<and> getItem ''oauth_completion_time''
        (localStorage (new_GoogleAuthService ex_env ex_network 1301000 ex_pending)) = None
   \<and> (\<exists>more. requests (new_GoogleAuthService ex_env ex_network 1299000 ex_pending)
               = TokenRequest ''client-id'' ''client-secret'' ''good'' # more)
   \<and> getItem ''temp_auth_code''
        (localStorage (new_GoogleAuthService ex_env ex_network 1299000 ex_pending)) = None
   \<and> getItem ''oauth_completion_time''
        (localStorage (new_GoogleAuthService ex_env ex_network 1299000 ex_pending)) = None
   \<and> requests (new_GoogleAuthService ex_env ex_network 1301000 ex_empty_code) = []
   \<and> getItem ''oauth_completion_time''
        (localStorage (new_GoogleAuthService ex_env ex_network 1301000 ex_empty_code))
       = Some ''1000000''"
proof -
  have h: "getItem ''temp_auth_code'' ex_pending = Some ''good'' \<and> truthy ''good''
    \<and> getItem ''oauth_completion_time'' ex_pending = Some ''1000000'' \<and> truthy ''1000000''"
    by (simp add: getItem_def ex_pending_def truthy_def)
  have p: "parseInt ''1000000'' = Some 1000000"
    by (simp add: parseInt_def is_StrWhiteSpaceChar_def hex_digit_def)
  have e: "REACT_APP_GOOGLE_CLIENT_ID ex_env = Some ''client-id''" "truthy ''client-id''"
    "REACT_APP_GOOGLE_CLIENT_SECRET ex_env = Some ''client-secret''" "truthy ''client-secret''"
    by (simp_all add: ex_env_def truthy_def)
  have g: "\<not> (truthy_opt (getItem ''temp_auth_code'' ex_empty_code)
       \<and> truthy_opt (getItem ''oauth_completion_time'' ex_empty_code))"
    "getItem ''oauth_completion_time'' ex_empty_code = Some ''1000000''"
    by (simp_all add: getItem_def ex_empty_code_def truthy_opt_def truthy_def)
  show ?thesis
    using C3_pending_attempt_expiry [where st = ex_pending and e = ex_env and net = ex_network and now = 1301000
        and code = "''good''" and time = "''1000000''", OF refl]
      C3_pending_attempt_expiry [where st = ex_pending and e = ex_env and net = ex_network and now = 1299000
        and code = "''good''" and time = "''1000000''", OF refl]
      C3_pending_attempt_expiry [where st = ex_empty_code and e = ex_env and net = ex_network and now = 1301000
        and code = "[]" and time = "''1000000''", OF refl]
      h p e g
    by (simp add: truthy_opt_def truthy_def loadStoredAuth_requests loadStoredAuth_pending_keys
        fresh_world_def)
qed

text \<open>
  The claim as first stated has the records removed in every case. With an
  empty code record and a timestamp 301 seconds in the past, the check does not
  enter its guarded block and both records stay.
\<close>

theorem C3_pending_attempt_expiry_counterexample:
  "getItem ''temp_auth_code'' ex_empty_code = Some []
   \<and> getItem ''oauth_completion_time'' ex_empty_code = Some ''1000000''
   \<and> parseInt ''1000000'' = Some (1301000 - 301 * 1000)
   \<and> getItem ''temp_auth_code''
        (localStorage (new_GoogleAuthService ex_env ex_network 1301000 ex_empty_code)) = Some []
   \<and> getItem ''oauth_completion_time''
        (localStorage (new_GoogleAuthService ex_env ex_network 1301000 ex_empty_code))
       = Some ''1000000''"
  by (simp add: getItem_def ex_empty_code_def parseInt_def is_StrWhiteSpaceChar_def hex_digit_def
      new_GoogleAuthService_def checkForOAuthCompletion_def fresh_world_def Let_def truthy_def
      loadStoredAuth_def)

section \<open>A failed exchange\<close>

text \<open>
  Claim C5, as amended. While completing sign-in from a pending authorization
  code (credentials configured): if the token-exchange response has a
  non-success status, the current user, the access token, the token of the Drive
  service and the persisted session are unchanged, and the failure is logged. If
  the token response succeeds and the user-profile response has a non-success
  status, no session is created (the current user, isSignedIn, the token of the
  Drive service and the persisted session are unchanged) and the failure is
  logged, but the in-memory access token is the one just received. In both cases
  processAuthCode returns normally.
\<close>

theorem C5_failed_exchange_keeps_state:
  assumes "REACT_APP_GOOGLE_CLIENT_ID e = Some clientId" and "truthy clientId"
    and "REACT_APP_GOOGLE_CLIENT_SECRET e = Some clientSecret" and "truthy clientSecret"
    and "w' = processAuthCode e net authCode w"
  shows "(\<forall>status body.
            token_endpoint net clientId clientSecret authCode = NotOk status body
            \<longrightarrow> currentUser w' = currentUser w \<and> accessToken w' = accessToken w
                \<and> drive_accessToken w' = drive_accessToken w
                \<and> localStorage w' = localStorage w
                \<and> isSignedIn w' = isSignedIn w
                \<and> console_errors w' = console_errors w @ [''Token exchange failed:''])
       \<and> (\<forall>access_token status body.
            token_endpoint net clientId clientSecret authCode = OkBody access_token
            \<and> userinfo_endpoint net (js_string access_token) = NotOk status body
            \<longrightarrow> currentUser w' = currentUser w \<and> accessToken w' = access_token
                \<and> drive_accessToken w' = drive_accessToken w
                \<and> localStorage w' = localStorage w
                \<and> isSignedIn w' = isSignedIn w
                \<and> console_errors w' = console_errors w @ [''Failed to get user info''])"
proof -
  have w': "w' = processAuthCode_resume net clientId clientSecret authCode
        (fetch (TokenRequest clientId clientSecret authCode) w)"
    unfolding assms(5) using assms(1-4) by (rule processAuthCode_configured)
  show ?thesis
    by (simp add: w' processAuthCode_resume_def Let_def fetch_def console_error_def
        isSignedIn_def)
qed

theorem C5_failed_exchange_keeps_state_witness:
  "accessToken (processAuthCode ex_env ex_network ''bad'' ex_signed_in) = Some ''old-token''
   \<and> currentUser (processAuthCode ex_env ex_network ''bad'' ex_signed_in) = Some ex_user
   \<and> console_errors (processAuthCode ex_env ex_network ''bad'' ex_signed_in)
       = [''Token exchange failed:'']
   \<and> currentUser (processAuthCode ex_env ex_network ''good'' ex_signed_in) = Some ex_user
   \<and> localStorage (processAuthCode ex_env ex_network ''good'' ex_signed_in) = Map.empty
   \<and> console_errors (processAuthCode ex_env ex_network ''good'' ex_signed_in)
       = [''Failed to get user info'']"
proof -
  have e: "REACT_APP_GOOGLE_CLIENT_ID ex_env = Some ''client-id''" "truthy ''client-id''"
    "REACT_APP_GOOGLE_CLIENT_SECRET ex_env = Some ''client-secret''" "truthy ''client-secret''"
    by (simp_all add: ex_env_def truthy_def)
  have n: "token_endpoint ex_network ''client-id'' ''client-secret'' ''bad''
      = NotOk 400 ''invalid_grant''"
    "token_endpoint ex_network ''client-id'' ''client-secret'' ''good'' = OkBody (Some ''new-token'')"
    "userinfo_endpoint ex_network (js_string (Some ''new-token'')) = NotOk 401 ''unauthorized''"
    by (simp_all add: ex_network_def)
  have s: "currentUser ex_signed_in = Some ex_user" "accessToken ex_signed_in = Some ''old-token''"
    "localStorage ex_signed_in = Map.empty" "console_errors ex_signed_in = []"
    by (simp_all add: ex_signed_in_def fresh_world_def)
  show ?thesis
    using C5_failed_exchange_keeps_state [OF e refl, of ex_network "''bad''" ex_signed_in]
      C5_failed_exchange_keeps_state [OF e refl, of ex_network "''good''" ex_signed_in]
      n s
    by simp
qed

text \<open>
  The claim as first stated has the access token unchanged in both cases. After
  a token response that succeeds, the token is assigned before the profile is
  fetched, and a failing profile response leaves it assigned.
\<close>

theorem C5_failed_exchange_keeps_state_counterexample:
  "token_endpoint ex_network ''client-id'' ''client-secret'' ''good'' = OkBody (Some ''new-token'')
   \<and> userinfo_endpoint ex_network ''new-token'' = NotOk 401 ''unauthorized''
   \<and> accessToken ex_signed_in = Some ''old-token''
   \<and> accessToken (processAuthCode ex_env ex_network ''good'' ex_signed_in) = Some ''new-token''"
  by (simp add: ex_network_def ex_signed_in_def fresh_world_def processAuthCode_def
      processAuthCode_begin_def ex_env_def truthy_def processAuthCode_resume_def Let_def
      fetch_def console_error_def js_string_def)

section \<open>The persisted session\<close>

text \<open>
  Claim C6, as amended. For every user and every non-empty token, after
  setAuthenticatedUser(user, token) a session restore on a fresh load
  (loadStoredAuth) yields a current user whose id, email, name and photo are
  those of the persisted user, and an access token equal to the persisted token
  (also handed to the Drive service). With the empty token, the restore leaves
  the current user and the token empty.
\<close>

theorem C6_session_round_trip:
  assumes "stored = localStorage (setAuthenticatedUser user (Some token) w)"
    and "restored = loadStoredAuth (fresh_world stored)"
  shows "(token \<noteq> [] \<longrightarrow>
            currentUser restored = Some user \<and> accessToken restored = Some token
            \<and> drive_accessToken restored = Some token
            \<and> map_option user_id (currentUser restored) = Some (user_id user)
            \<and> map_option user_email (currentUser restored) = Some (user_email user)
            \<and> map_option user_name (currentUser restored) = Some (user_name user)
            \<and> map_option user_photo (currentUser restored) = Some (user_photo user))
       \<and> (token = [] \<longrightarrow> currentUser restored = None \<and> accessToken restored = None)"
proof -
  have 1: "getItem ''google_auth_user'' (localStorage (fresh_world stored))
      = Some (JSON_stringify_user user)"
    "getItem ''google_auth_token'' (localStorage (fresh_world stored)) = Some token"
    using stored_session [of user "Some token" w]
    by (simp_all add: assms(1) fresh_world_def js_string_def)
  have "restored =
    (if truthy token
     then (fresh_world stored)\<lparr>currentUser := Some user, accessToken := Some token,
            drive_accessToken := Some token\<rparr>
     else fresh_world stored)"
    unfolding assms(2) using 1 by (rule loadStoredAuth_session)
  then show ?thesis
    by (simp add: truthy_def fresh_world_def)
qed

theorem C6_session_round_trip_witness:
  "currentUser (loadStoredAuth (fresh_world
      (localStorage (setAuthenticatedUser ex_user (Some ''token'') ex_world)))) = Some ex_user
   \<and> accessToken (loadStoredAuth (fresh_world
      (localStorage (setAuthenticatedUser ex_user (Some ''token'') ex_world)))) = Some ''token''
   \<and> currentUser (loadStoredAuth (fresh_world
      (localStorage (setAuthenticatedUser ex_user (Some []) ex_world)))) = None"
  using C6_session_round_trip [where user = ex_user and token = "''token''" and w = ex_world,
      OF refl refl]
    C6_session_round_trip [where user = ex_user and token = "[]" and w = ex_world, OF refl refl]
  by simp

text \<open>
  The claim as first stated covers every token. With the empty string as token
  the session is held in memory and both records are written, and the restore
  skips them, since it tests the stored token for truthiness.
\<close>

theorem C6_session_round_trip_counterexample:
  "isSignedIn (setAuthenticatedUser ex_user (Some []) ex_world)
   \<and> getItem ''google_auth_user'' (localStorage (setAuthenticatedUser ex_user (Some []) ex_world))
       = Some (JSON_stringify_user ex_user)
   \<and> getItem ''google_auth_token'' (localStorage (setAuthenticatedUser ex_user (Some []) ex_world))
       = Some []
   \<and> currentUser (loadStoredAuth (fresh_world
        (localStorage (setAuthenticatedUser ex_user (Some []) ex_world)))) = None"
proof -
  let ?st = "localStorage (setAuthenticatedUser ex_user (Some []) ex_world)"
  have 1: "getItem ''google_auth_user'' ?st = Some (JSON_stringify_user ex_user)"
    "getItem ''google_auth_token'' ?st = Some []"
    using stored_session [of ex_user "Some []" ex_world] by (simp_all add: js_string_def)
  have 2: "getItem ''google_auth_user'' (localStorage (fresh_world ?st))
      = Some (JSON_stringify_user ex_user)"
    "getItem ''google_auth_token'' (localStorage (fresh_world ?st)) = Some []"
    using 1 by (simp_all add: fresh_world_def)
  have "loadStoredAuth (fresh_world ?st) = fresh_world ?st"
    using loadStoredAuth_session [OF 2] by (simp add: truthy_def)
  moreover have "isSignedIn (setAuthenticatedUser ex_user (Some []) ex_world)"
    by (simp add: isSignedIn_def setAuthenticatedUser_def Let_def setAccessToken_def)
  ultimately show ?thesis
    using 1 by (simp add: fresh_world_def)
qed

section \<open>Sign-out\<close>

text \<open>
  Claim C7. After signOut, isSignedIn is false and getAccessToken gives none;
  the persisted user and token and the two records of a pending authorization
  attempt are removed, so that a restore on a fresh load finds nothing: the
  fresh state stays signed out and no request is sent. signOut is a total
  function of the state: it returns normally in every state.
\<close>

theorem C7_sign_out_clears_session:
  "isSignedIn (signOut w) = False
   \<and> getAccessToken (signOut w) = None
   \<and> getCurrentUser (signOut w) = None
   \<and> getItem ''google_auth_user'' (localStorage (signOut w)) = None
   \<and> getItem ''google_auth_token'' (localStorage (signOut w)) = None
   \<and> getItem ''temp_auth_code'' (localStorage (signOut w)) = None
   \<and> getItem ''oauth_completion_time'' (localStorage (signOut w)) = None
   \<and> loadStoredAuth (fresh_world (localStorage (signOut w))) = fresh_world (localStorage (signOut w))
   \<and> new_GoogleAuthService e net now (localStorage (signOut w))
       = fresh_world (localStorage (signOut w))
   \<and> isSignedIn (new_GoogleAuthService e net now (localStorage (signOut w))) = False
   \<and> getAccessToken (new_GoogleAuthService e net now (localStorage (signOut w))) = None
   \<and> requests (new_GoogleAuthService e net now (localStorage (signOut w))) = []"
proof -
  let ?st = "localStorage (signOut w)"
  have keys: "getItem ''google_auth_user'' ?st = None" "getItem ''google_auth_token'' ?st = None"
    "getItem ''temp_auth_code'' ?st = None" "getItem ''oauth_completion_time'' ?st = None"
    by (simp_all add: signOut_simps getItem_removeItem)
  have new: "new_GoogleAuthService e net now ?st = fresh_world ?st"
    using keys(3) keys(1) by (rule new_GoogleAuthService_nothing_stored)
  have load: "loadStoredAuth (fresh_world ?st) = fresh_world ?st"
    using keys(1) by (simp add: loadStoredAuth_def fresh_world_def Let_def)
  have mem: "isSignedIn (signOut w) = False" "getAccessToken (signOut w) = None"
    "getCurrentUser (signOut w) = None"
    by (simp_all add: isSignedIn_def getAccessToken_def getCurrentUser_def signOut_simps)
  have fresh: "isSignedIn (fresh_world ?st) = False" "getAccessToken (fresh_world ?st) = None"
    "requests (fresh_world ?st) = []"
    by (simp_all add: isSignedIn_def getAccessToken_def fresh_world_def)
  from keys new load mem fresh show ?thesis by (simp only: simp_thms)
qed

theorem C7_sign_out_clears_session_witness:
  "isSignedIn ex_stored_session
   \<and> getItem ''google_auth_token'' (localStorage ex_stored_session) = Some ''token''
   \<and> isSignedIn (signOut ex_stored_session) = False
   \<and> getAccessToken (signOut ex_stored_session) = None
   \<and> isSignedIn (new_GoogleAuthService ex_env ex_network 1000001
        (localStorage (signOut ex_stored_session))) = False
   \<and> requests (new_GoogleAuthService ex_env ex_network 1000001
        (localStorage (signOut ex_stored_session))) = []"
proof -
  have "isSignedIn ex_stored_session"
    by (simp add: ex_stored_session_def isSignedIn_def setAuthenticatedUser_def Let_def
        setAccessToken_def)
  moreover have "getItem ''google_auth_token'' (localStorage ex_stored_session) = Some ''token''"
    by (simp add: ex_stored_session_def stored_session js_string_def)
  ultimately show ?thesis
    using C7_sign_out_clears_session [of ex_stored_session ex_env ex_network 1000001]
    by (simp add: isSignedIn_def fresh_world_def)
qed

section \<open>A folder id or a folder URL\<close>

text \<open>
  Claim C10, as amended. listPhotosInFolder accepts a bare folder id or a folder
  URL: an argument without \<open>folders/\<close> is used as it is; in an argument with
  \<open>folders/\<close>, the id used in the query is the portion after the first
  \<open>folders/\<close>, cut at the next \<open>folders/\<close> if there is one, and then truncated at
  the first \<open>?\<close>. So for every folder id that contains neither \<open>folders/\<close> nor
  \<open>?\<close>, a share URL of it (a prefix without \<open>folders/\<close>, then \<open>folders/\<close>, the
  id, then nothing or a query that starts with \<open>?\<close>) behaves as the bare id does.
\<close>

theorem C10_folder_id_or_url:
  "(\<not> includes_js arg ''folders/'' \<longrightarrow> actualFolderId arg = Inr arg)
   \<and> (\<not> includes_js p ''folders/'' \<and> \<not> includes_js m ''folders/''
        \<longrightarrow> actualFolderId (p @ ''folders/'' @ m) = Inr (until_query m)
            \<and> actualFolderId (p @ ''folders/'' @ m @ ''folders/'' @ r) = Inr (until_query m))
   \<and> (\<not> includes_js p ''folders/'' \<and> \<not> includes_js i ''folders/'' \<and> CHR ''?'' \<notin> set i
        \<and> (q = [] \<or> hd q = CHR ''?'')
        \<longrightarrow> actualFolderId (p @ ''folders/'' @ i @ q) = Inr i
            \<and> actualFolderId i = Inr i
            \<and> listPhotosInFolder net (p @ ''folders/'' @ i @ q) w = listPhotosInFolder net i w)"
proof (intro conjI impI)
  assume "\<not> includes_js arg ''folders/''"
  then show "actualFolderId arg = Inr arg" by (rule actualFolderId_bare)
next
  assume h: "\<not> includes_js p ''folders/'' \<and> \<not> includes_js m ''folders/''"
  then show "actualFolderId (p @ ''folders/'' @ m) = Inr (until_query m)"
    by (intro actualFolderId_once) simp_all
  from h show "actualFolderId (p @ ''folders/'' @ m @ ''folders/'' @ r) = Inr (until_query m)"
    by (intro actualFolderId_twice) simp_all
next
  assume h: "\<not> includes_js p ''folders/'' \<and> \<not> includes_js i ''folders/'' \<and> CHR ''?'' \<notin> set i
        \<and> (q = [] \<or> hd q = CHR ''?'')"
  then show url: "actualFolderId (p @ ''folders/'' @ i @ q) = Inr i"
    by (intro actualFolderId_share_url) simp_all
  from h show bare: "actualFolderId i = Inr i"
    by (intro actualFolderId_bare) simp
  show "listPhotosInFolder net (p @ ''folders/'' @ i @ q) w = listPhotosInFolder net i w"
    by (rule listPhotosInFolder_same_id) (simp only: url bare)
qed

theorem C10_folder_id_or_url_witness:
  "actualFolderId ''XYZ123'' = Inr ''XYZ123''
   \<and> actualFolderId (''https://drive.google.com/drive/'' @ ''folders/'' @ ''XYZ123'' @ ''?usp=sharing'')
       = Inr ''XYZ123''
   \<and> listPhotosInFolder ex_network
        (''https://drive.google.com/drive/'' @ ''folders/'' @ ''XYZ123'' @ ''?usp=sharing'') ex_world
       = listPhotosInFolder ex_network ''XYZ123'' ex_world
   \<and> actualFolderId (''https://drive.example.com/drive/'' @ ''folders/'' @ ''AAA/'' @ ''folders/'' @ ''BBB'')
       = Inr ''AAA/''"
proof -
  have 1: "\<not> includes_js ''https://drive.google.com/drive/'' ''folders/''
      \<and> \<not> includes_js ''XYZ123'' ''folders/'' \<and> CHR ''?'' \<notin> set ''XYZ123''
      \<and> (''?usp=sharing'' = [] \<or> hd ''?usp=sharing'' = CHR ''?'')"
    by simp
  have 2: "\<not> includes_js ''https://drive.example.com/drive/'' ''folders/''
      \<and> \<not> includes_js ''AAA/'' ''folders/''"
    by simp
  have 3: "until_query ''AAA/'' = ''AAA/''"
    by (simp add: until_query_def)
  show ?thesis
    using C10_folder_id_or_url [of "''XYZ123''" "''https://drive.google.com/drive/''" "''XYZ123''"
        "[]" "''XYZ123''" "''?usp=sharing''" ex_network ex_world]
      C10_folder_id_or_url [of "''XYZ123''" "''https://drive.example.com/drive/''" "''AAA/''"
        "''BBB''" "''XYZ123''" "''?usp=sharing''" ex_network ex_world]
      1 2 3
    by (simp del: includes_js.simps)
qed

text \<open>
  The claim as first stated takes the whole portion after the first
  \<open>folders/\<close> up to the first \<open>?\<close>. The second element of the split ends at the
  next \<open>folders/\<close>.
\<close>

theorem C10_folder_id_or_url_counterexample:
  "includes_js ''https://drive.example.com/drive/folders/AAA/folders/BBB'' ''folders/''
   \<and> \<not> includes_js ''https://drive.example.com/drive/'' ''folders/''
   \<and> ''https://drive.example.com/drive/folders/AAA/folders/BBB''
       = ''https://drive.example.com/drive/'' @ ''folders/'' @ ''AAA/folders/BBB''
   \<and> until_query ''AAA/folders/BBB'' = ''AAA/folders/BBB''
   \<and> actualFolderId ''https://drive.example.com/drive/folders/AAA/folders/BBB'' = Inr ''AAA/''"
  by (simp add: actualFolderId_def until_query_def)

section \<open>The preview URL does not depend on the token\<close>

text \<open>
  Claim C8. For every listed entry that qualifies as an image, the preview URL
  (thumbnailLink) is the thumbnail endpoint with the entry's id substituted, a
  function of the id alone: two runs of listPhotosInFolder with different access
  tokens, to which the server answers with the same entries, give the same
  preview URLs.
\<close>

theorem C8_preview_url_token_independent:
  assumes "actualFolderId folderId = Inr actual"
    and "drive_accessToken w1 = Some tok1" and "truthy tok1"
    and "drive_accessToken w2 = Some tok2" and "truthy tok2"
    and "drive_endpoint net ''files'' (listing_params actual) tok1 = OkBody files"
    and "drive_endpoint net ''files'' (listing_params actual) tok2 = OkBody files"
  shows "\<exists>ps1 ps2 w1' w2'.
           listPhotosInFolder net folderId w1 = (Inr ps1, w1')
         \<and> listPhotosInFolder net folderId w2 = (Inr ps2, w2')
         \<and> map photo_id ps1 = map file_id (filter is_image files)
         \<and> map photo_thumbnailLink ps1 = map (\<lambda>f. Some (thumbnail_url (file_id f))) (filter is_image files)
         \<and> map photo_thumbnailLink ps2 = map photo_thumbnailLink ps1"
proof -
  have 1: "listPhotosInFolder net folderId w1
         = (Inr (map (to_photo tok1) (filter is_image files)),
            fetch (DriveRequest ''files'' (listing_params actual) tok1) w1)"
    using assms(1,2,3,6) by (rule listPhotosInFolder_ok)
  have 2: "listPhotosInFolder net folderId w2
         = (Inr (map (to_photo tok2) (filter is_image files)),
            fetch (DriveRequest ''files'' (listing_params actual) tok2) w2)"
    using assms(1,4,5,7) by (rule listPhotosInFolder_ok)
  show ?thesis
    by (simp add: 1 2 to_photo_def comp_def)
qed

theorem C8_preview_url_token_independent_witness:
  "map photo_thumbnailLink
     (projr (fst (listPhotosInFolder ex_network ''XYZ123'' (ex_world\<lparr>drive_accessToken := Some ''t1''\<rparr>))))
   = [Some (thumbnail_url ''A''), Some (thumbnail_url ''B'')]
   \<and> map photo_thumbnailLink
     (projr (fst (listPhotosInFolder ex_network ''XYZ123'' (ex_world\<lparr>drive_accessToken := Some ''t2''\<rparr>))))
   = [Some (thumbnail_url ''A''), Some (thumbnail_url ''B'')]"
proof -
  have 1: "actualFolderId ''XYZ123'' = Inr ''XYZ123''"
    by (simp add: actualFolderId_def)
  have 2: "drive_accessToken (ex_world\<lparr>drive_accessToken := Some ''t1''\<rparr>) = Some ''t1''"
    "truthy ''t1''"
    "drive_accessToken (ex_world\<lparr>drive_accessToken := Some ''t2''\<rparr>) = Some ''t2''"
    "truthy ''t2''"
    by (simp_all add: truthy_def)
  have 3: "drive_endpoint ex_network ''files'' (listing_params ''XYZ123'') t
      = OkBody [ex_file ''A'', ex_file ''B'']" for t
    by (simp add: ex_network_def)
  have 4: "is_image (ex_file i)" for i
    by (simp add: is_image_def ex_file_def)
  have 5: "file_id (ex_file i) = i" for i
    by (simp add: ex_file_def)
  show ?thesis
    using C8_preview_url_token_independent [OF 1 2 3 3]
    by (auto simp: 4 5)
qed

section \<open>Navigation wraps around\<close>

lemma js_rem_nonneg: "0 \<le> a \<Longrightarrow> 0 < b \<Longrightarrow> js_rem a b = a mod b"
  by (simp add: js_rem_def smod_int_alt_def sgn_if)

lemma displayPhotos_length_pos: "0 < displayPhotos_length a"
  by (simp add: displayPhotos_length_def samplePhotos_def)

lemma displayPhotos_length_nextPhoto: "displayPhotos_length (nextPhoto a) = displayPhotos_length a"
  by (simp add: nextPhoto_def displayPhotos_length_def Let_def)

lemma currentPhotoIndex_nextPhoto:
  assumes "0 \<le> currentPhotoIndex a"
  shows "currentPhotoIndex (nextPhoto a) = (currentPhotoIndex a + 1) mod displayPhotos_length a"
proof -
  have pos: "0 < displayPhotos_length a" by (rule displayPhotos_length_pos)
  have "js_rem (currentPhotoIndex a + 1) (displayPhotos_length a)
        = (currentPhotoIndex a + 1) mod displayPhotos_length a"
    using assms pos by (simp add: js_rem_nonneg)
  then show ?thesis
    using pos by (simp add: nextPhoto_def Let_def)
qed

lemma currentPhotoIndex_prevPhoto:
  assumes "0 \<le> currentPhotoIndex a" "currentPhotoIndex a < displayPhotos_length a"
  shows "currentPhotoIndex (prevPhoto a)
         = (currentPhotoIndex a - 1 + displayPhotos_length a) mod displayPhotos_length a"
proof -
  have pos: "0 < displayPhotos_length a" by (rule displayPhotos_length_pos)
  have "js_rem (currentPhotoIndex a - 1 + displayPhotos_length a) (displayPhotos_length a)
        = (currentPhotoIndex a - 1 + displayPhotos_length a) mod displayPhotos_length a"
    using assms pos by (simp add: js_rem_nonneg)
  then show ?thesis
    using pos by (simp add: prevPhoto_def Let_def)
qed

text \<open>
  Claim C9. With \<open>n\<close> the length of the displayed list (always positive) and the
  current index \<open>i\<close> in \<open>[0, n)\<close>: nextPhoto sets the index to \<open>(i + 1) mod n\<close>,
  prevPhoto sets it to \<open>(i - 1 + n) mod n\<close>, both results lie in \<open>[0, n)\<close>, and
  prevPhoto after nextPhoto gives \<open>i\<close> back.
\<close>

theorem C9_navigation_wraps:
  assumes "0 \<le> currentPhotoIndex a" and "currentPhotoIndex a < displayPhotos_length a"
  shows "0 < displayPhotos_length a
       \<and> currentPhotoIndex (nextPhoto a)
           = (currentPhotoIndex a + 1) mod displayPhotos_length a
       \<and> currentPhotoIndex (prevPhoto a)
           = (currentPhotoIndex a - 1 + displayPhotos_length a) mod displayPhotos_length a
       \<and> 0 \<le> currentPhotoIndex (nextPhoto a)
       \<and> currentPhotoIndex (nextPhoto a) < displayPhotos_length a
       \<and> 0 \<le> currentPhotoIndex (prevPhoto a)
       \<and> currentPhotoIndex (prevPhoto a) < displayPhotos_length a
       \<and> currentPhotoIndex (prevPhoto (nextPhoto a)) = currentPhotoIndex a"
proof -
  let ?n = "displayPhotos_length a"
  let ?i = "currentPhotoIndex a"
  have pos: "0 < ?n" by (rule displayPhotos_length_pos)
  have nx: "currentPhotoIndex (nextPhoto a) = (?i + 1) mod ?n"
    using assms(1) by (rule currentPhotoIndex_nextPhoto)
  have pv: "currentPhotoIndex (prevPhoto a) = (?i - 1 + ?n) mod ?n"
    using assms by (rule currentPhotoIndex_prevPhoto)
  have nx_lo: "0 \<le> currentPhotoIndex (nextPhoto a)"
    and nx_hi: "currentPhotoIndex (nextPhoto a) < ?n"
    using pos by (simp_all add: nx)
  have pv_lo: "0 \<le> currentPhotoIndex (prevPhoto a)"
    and pv_hi: "currentPhotoIndex (prevPhoto a) < ?n"
    using pos by (simp_all add: pv)
  have len: "displayPhotos_length (nextPhoto a) = ?n"
    by (rule displayPhotos_length_nextPhoto)
  have "currentPhotoIndex (prevPhoto (nextPhoto a))
        = (currentPhotoIndex (nextPhoto a) - 1 + ?n) mod ?n"
    using currentPhotoIndex_prevPhoto [of "nextPhoto a"] nx_lo nx_hi len by simp
  also have "\<dots> = ((?i + 1) mod ?n - 1) mod ?n"
    by (simp add: nx)
  also have "\<dots> = (?i + 1 - 1) mod ?n"
    by (rule mod_diff_left_eq)
  also have "\<dots> = ?i"
    using assms by simp
  finally have restored: "currentPhotoIndex (prevPhoto (nextPhoto a)) = ?i" .
  from pos nx pv nx_lo nx_hi pv_lo pv_hi restored show ?thesis by simp
qed

theorem C9_navigation_wraps_witness:
  "currentPhotoIndex (nextPhoto \<lparr>currentPhotoIndex = 4, drivePhotos = [],
        isLoadingPhotos = False, photoError = None\<rparr>) = 0
   \<and> currentPhotoIndex (prevPhoto \<lparr>currentPhotoIndex = 4, drivePhotos = [],
        isLoadingPhotos = False, photoError = None\<rparr>) = 3
   \<and> currentPhotoIndex (prevPhoto (nextPhoto \<lparr>currentPhotoIndex = 4, drivePhotos = [],
        isLoadingPhotos = False, photoError = None\<rparr>)) = 4"
  using C9_navigation_wraps [of "\<lparr>currentPhotoIndex = 4, drivePhotos = [],
        isLoadingPhotos = False, photoError = None\<rparr>"]
  by (simp add: displayPhotos_length_def samplePhotos_def)

end
